theory Spec2Isabelle
  imports Main "HOL-Library.Word" "HOL-Library.Multiset" "HOL-Library.FSet"
    "HOL-Library.Product_Lexorder"
begin

section \<open>Data model of main.go\<close>

text \<open>
  A CSV record is the list of its fields, as \<open>csv.Reader.Read\<close> returns it. The input
  file is the list of records that successive calls of \<open>Read\<close> return before the first
  error (end of file included); both passes over the file see this same list.
  \<open>LineMeta.Size\<close> and \<open>FileBucket.TotalSize\<close> are Go \<open>int64\<close>: 64-bit words whose
  addition wraps and which are compared through \<open>sint\<close>. Line numbers are Go \<open>int\<close>
  counters that only count records of the file; they are modelled as unbounded integers.
  \<open>FileBucket.LineNums\<close> is a \<open>map[int]struct{}\<close> used as a set: a finite set of keys.
  Opening the input, creating the outputs and writing to them are taken to succeed.
\<close>

type_synonym csv_record = "string list"

record LineMeta =
  LineNumber :: int
  Size :: "64 word"

record FileBucket =
  TotalSize :: "64 word"
  LineNums :: "int fset"

text \<open>
  The ways a run stops early: the panic of \<open>scan\<close> when the header cannot be read, the
  runtime panic of \<open>record[2]\<close> on a record with fewer than three fields, the runtime
  panic of \<open>make([]FileBucket, bucketsN)\<close> on a negative length, the runtime panic of
  \<open>buckets[minIndex]\<close> on an empty slice, and the \<open>os.Exit(1)\<close> of \<open>write\<close> on a bucket
  index out of range (with the index and the line number it prints).
\<close>

datatype fault =
    ScanHeaderPanic
  | ScanFieldIndexPanic
  | BinpackMakeslicePanic
  | BinpackIndexPanic
  | WriteBucketOutOfRange int int

text \<open>
  The data-dependent lines the passes print: the progress line of \<open>scan\<close> and of
  \<open>write\<close> (every 1000000 lines) and the warning of \<open>write\<close> for a line found in no
  bucket. The fixed banners and the timings are left out.
\<close>

datatype event = ScanProgress int | WriteWarning int | WriteProgress int

section \<open>strconv.ParseInt (base 10, 64 bits)\<close>

text \<open>
  The library function \<open>scan\<close> calls on the third field, after the Go standard
  library: an optional sign, then decimal digits read left to right by \<open>ParseUint\<close>,
  which stops with a range error as soon as the value leaves 64 bits and with a syntax
  error at the first byte that is no digit. \<open>ParseInt\<close> returns 0 with a syntax error,
  and the nearest bound of \<open>int64\<close> with a range error.
\<close>

datatype num_error = ErrSyntax | ErrRange

fun parse_digits :: "string \<Rightarrow> nat \<Rightarrow> nat \<times> num_error option" where
  "parse_digits [] n = (n, None)"
| "parse_digits (c # cs) n =
     (if \<not> (48 \<le> (of_char c :: nat) \<and> (of_char c :: nat) \<le> 57) then (0, Some ErrSyntax)
      else if (2 ^ 64 - 1) div 10 + 1 \<le> n then (2 ^ 64 - 1, Some ErrRange)
      else if 2 ^ 64 - 1 < n * 10 + (of_char c - 48) then (2 ^ 64 - 1, Some ErrRange)
      else parse_digits cs (n * 10 + (of_char c - 48)))"

definition ParseUint :: "string \<Rightarrow> nat \<times> num_error option" where
  "ParseUint s = (if s = [] then (0, Some ErrSyntax) else parse_digits s 0)"

definition ParseInt :: "string \<Rightarrow> int \<times> num_error option" where
  "ParseInt s =
     (if s = [] then (0, Some ErrSyntax)
      else
        let neg = (hd s = CHR ''-'');
            s1 = (if hd s = CHR ''+'' \<or> hd s = CHR ''-'' then tl s else s);
            un = fst (ParseUint s1);
            err = snd (ParseUint s1)
        in if err = Some ErrSyntax then (0, Some ErrSyntax)
           else if \<not> neg \<and> 2 ^ 63 \<le> un then (2 ^ 63 - 1, Some ErrRange)
           else if neg \<and> 2 ^ 63 < un then (- (2 ^ 63), Some ErrRange)
           else (if neg then - int un else int un, None))"

section \<open>scan\<close>

text \<open>
  \<open>scan\<close> reads the header (a failure panics), sets \<open>line\<close> to 1 and then, for every
  further record, appends \<open>LineMeta{LineNumber: line, Size: size}\<close> where \<open>size\<close> is
  the value \<open>ParseInt\<close> returns for \<open>record[2]\<close>, its error being discarded
  (\<open>size, _ := ...\<close>), and increments \<open>line\<close>.
\<close>

fun scan_loop ::
  "csv_record list \<Rightarrow> int \<Rightarrow> LineMeta list \<Rightarrow> event list \<Rightarrow> fault + (LineMeta list \<times> event list)"
where
  "scan_loop [] line metas log = Inr (metas, log)"
| "scan_loop (r # rs) line metas log =
     (if length r \<le> 2 then Inl ScanFieldIndexPanic
      else
        let size = word_of_int (fst (ParseInt (r ! 2)));
            metas' = metas @ [\<lparr>LineNumber = line, Size = size\<rparr>];
            line' = line + 1;
            log' = (if line' mod 1000000 = 0 then log @ [ScanProgress line'] else log)
        in scan_loop rs line' metas' log')"

fun scan :: "csv_record list \<Rightarrow> fault + (LineMeta list \<times> event list)" where
  "scan [] = Inl ScanHeaderPanic"
| "scan (header # rs) = scan_loop rs 1 [] []"

section \<open>binpack\<close>

text \<open>
  The comparison handed to \<open>sort.Slice\<close>: \<open>metas[i].Size > metas[j].Size\<close>. It looks
  at the sizes only.
\<close>

definition size_greater :: "LineMeta \<Rightarrow> LineMeta \<Rightarrow> bool" where
  "size_greater a b = (sint (Size b) < sint (Size a))"

text \<open>
  \<open>sort.Slice\<close> belongs to the Go library, and its documentation promises a
  permutation ordered by the comparison and no stability. It is a parameter \<open>srt\<close> of
  the model, and \<open>sort_Slice_ok\<close> is that promise for the comparison of \<open>binpack\<close>.
\<close>

type_synonym sorter = "(LineMeta \<Rightarrow> LineMeta \<Rightarrow> bool) \<Rightarrow> LineMeta list \<Rightarrow> LineMeta list"

definition sort_Slice_ok :: "sorter \<Rightarrow> bool" where
  "sort_Slice_ok srt =
     (\<forall>xs. mset (srt size_greater xs) = mset xs \<and>
           sorted_wrt (\<lambda>a b. \<not> size_greater b a) (srt size_greater xs))"

text \<open>
  The insertion sort the library runs on slices of at most 12 elements: element \<open>i\<close>
  is swapped leftwards while it is less than its left neighbour. \<open>sink\<close> takes the
  elements to the left of \<open>x\<close>, nearest first, and returns them with \<open>x\<close> put in place.
\<close>

fun sink :: "('a \<Rightarrow> 'a \<Rightarrow> bool) \<Rightarrow> 'a \<Rightarrow> 'a list \<Rightarrow> 'a list" where
  "sink lt x [] = [x]"
| "sink lt x (y # ys) = (if lt x y then y # sink lt x ys else x # y # ys)"

fun insertion_loop :: "('a \<Rightarrow> 'a \<Rightarrow> bool) \<Rightarrow> 'a list \<Rightarrow> 'a list \<Rightarrow> 'a list" where
  "insertion_loop lt placed [] = rev placed"
| "insertion_loop lt placed (x # xs) = insertion_loop lt (sink lt x placed) xs"

definition insertionSort :: "('a \<Rightarrow> 'a \<Rightarrow> bool) \<Rightarrow> 'a list \<Rightarrow> 'a list" where
  "insertionSort lt xs = insertion_loop lt [] xs"

text \<open>
  The inner loop \<open>for i := 1; i < bucketsN; i++\<close>, which moves \<open>minIndex\<close> to \<open>i\<close>
  when bucket \<open>i\<close> is strictly lighter. It only runs for \<open>bucketsN \<ge> 2\<close>, where
  \<open>bucketsN\<close> is the length of \<open>buckets\<close>, so every index it reads is in range.
\<close>

function min_loop :: "FileBucket list \<Rightarrow> int \<Rightarrow> nat \<Rightarrow> nat \<Rightarrow> nat" where
  "min_loop buckets bucketsN i minIndex =
     (if int i < bucketsN
      then min_loop buckets bucketsN (i + 1)
             (if sint (TotalSize (buckets ! i)) < sint (TotalSize (buckets ! minIndex))
              then i else minIndex)
      else minIndex)"
  by pat_completeness auto
termination
  by (relation "measure (\<lambda>(buckets, bucketsN, i, minIndex). nat (bucketsN - int i))") auto

declare min_loop.simps [simp del]

text \<open>
  The body of \<open>for _, meta := range metas\<close>. \<open>buckets[minIndex]\<close> panics when the
  slice is empty (\<open>minIndex\<close> is 0 then).
\<close>

definition place :: "int \<Rightarrow> FileBucket list \<Rightarrow> LineMeta \<Rightarrow> fault + FileBucket list" where
  "place bucketsN buckets meta =
     (let minIndex = min_loop buckets bucketsN 1 0
      in if minIndex < length buckets
         then Inr (buckets[minIndex :=
                \<lparr>TotalSize = TotalSize (buckets ! minIndex) + Size meta,
                 LineNums = finsert (LineNumber meta) (LineNums (buckets ! minIndex))\<rparr>])
         else Inl BinpackIndexPanic)"

fun place_all :: "int \<Rightarrow> FileBucket list \<Rightarrow> LineMeta list \<Rightarrow> fault + FileBucket list" where
  "place_all bucketsN buckets [] = Inr buckets"
| "place_all bucketsN buckets (meta # metas) =
     (case place bucketsN buckets meta of
        Inl f \<Rightarrow> Inl f
      | Inr buckets' \<Rightarrow> place_all bucketsN buckets' metas)"

text \<open>
  \<open>binpack\<close>: sort, allocate \<open>bucketsN\<close> empty buckets (a negative length panics,
  after the sort), place every meta.
\<close>

definition binpack :: "sorter \<Rightarrow> LineMeta list \<Rightarrow> int \<Rightarrow> fault + FileBucket list" where
  "binpack srt metas bucketsN =
     (let sorted_metas = srt size_greater metas
      in if bucketsN < 0 then Inl BinpackMakeslicePanic
         else place_all bucketsN
                (replicate (nat bucketsN) \<lparr>TotalSize = 0, LineNums = {||}\<rparr>) sorted_metas)"

section \<open>write\<close>

text \<open>
  The index \<open>lineToBucket\<close>. Go visits the keys of a map in an order it does not
  specify; \<open>rng\<close> gives the order in which \<open>range\<close> visits the keys of a set, and
  \<open>range_ok\<close> says that it visits exactly the keys.
\<close>

type_synonym ranger = "int fset \<Rightarrow> int list"

definition range_ok :: "ranger \<Rightarrow> bool" where
  "range_ok rng = (\<forall>S. set (rng S) = fset S)"

fun index_keys :: "int list \<Rightarrow> int \<Rightarrow> (int \<rightharpoonup> int) \<Rightarrow> (int \<rightharpoonup> int)" where
  "index_keys [] i m = m"
| "index_keys (lineNum # ks) i m = index_keys ks i (m(lineNum \<mapsto> i))"

fun index_buckets :: "ranger \<Rightarrow> FileBucket list \<Rightarrow> int \<Rightarrow> (int \<rightharpoonup> int) \<Rightarrow> (int \<rightharpoonup> int)" where
  "index_buckets rng [] i m = m"
| "index_buckets rng (bucket # bs) i m =
     index_buckets rng bs (i + 1) (index_keys (rng (LineNums bucket)) i m)"

definition lineToBucket :: "ranger \<Rightarrow> FileBucket list \<Rightarrow> (int \<rightharpoonup> int)" where
  "lineToBucket rng buckets = index_buckets rng buckets 0 Map.empty"

text \<open>
  The read loop of \<open>write\<close>. \<open>outs\<close> holds, for every bucket, the records written to
  its file so far: the header is written to every writer by the loop itself, and a
  record sent on channel \<open>i\<close> is written to file \<open>i\<close> by the one goroutine that reads
  that channel, in the order of the sends. The first record read (\<open>lineNum = 0\<close>) is
  written to every file and \<open>lineNum\<close> becomes 1; the code then goes on to the lookup
  with that same record. \<open>len(channels)\<close> is the number of buckets, the length of
  \<open>outs\<close>.
\<close>

fun write_loop ::
  "(int \<rightharpoonup> int) \<Rightarrow> csv_record list \<Rightarrow> int \<Rightarrow> csv_record list list \<Rightarrow> event list \<Rightarrow>
   fault + (csv_record list list \<times> event list)"
where
  "write_loop idx [] lineNum outs log = Inr (outs, log)"
| "write_loop idx (r # rs) lineNum outs log =
     (let outs1 = (if lineNum = 0 then map (\<lambda>out. out @ [r]) outs else outs);
          lineNum1 = (if lineNum = 0 then lineNum + 1 else lineNum)
      in case idx lineNum1 of
           None \<Rightarrow> write_loop idx rs (lineNum1 + 1) outs1 (log @ [WriteWarning lineNum1])
         | Some bucketIndex \<Rightarrow>
             if 0 \<le> bucketIndex \<and> bucketIndex < int (length outs1)
             then write_loop idx rs (lineNum1 + 1)
                    (outs1[nat bucketIndex := outs1 ! nat bucketIndex @ [r]])
                    (if lineNum1 mod 1000000 = 0 then log @ [WriteProgress lineNum1] else log)
             else Inl (WriteBucketOutOfRange bucketIndex lineNum1))"

text \<open>
  \<open>write_files\<close> is the function \<open>write\<close> (a reserved word here): one empty file per
  bucket, the index, then the read loop from \<open>lineNum = 0\<close>.
\<close>

definition write_files ::
  "ranger \<Rightarrow> csv_record list \<Rightarrow> FileBucket list \<Rightarrow> fault + (csv_record list list \<times> event list)"
where
  "write_files rng input buckets =
     write_loop (lineToBucket rng buckets) input 0 (replicate (length buckets) []) []"

text \<open>
  The goroutines of \<open>write\<close>. The loop above is the producer: after the header it only
  sends, each record to the channel of its bucket (\<open>sends_of\<close> lists these sends in
  order, for an index whose values are in range). Channel \<open>j\<close> buffers at most 10000
  records; \<open>writerRoutine\<close> \<open>j\<close> takes the oldest record of channel \<open>j\<close> and writes it
  to file \<open>j\<close>. A configuration holds the sends still to make, the buffered records
  of every channel and the records written to every file; \<open>writer_step\<close> is one send
  or one receive, in any interleaving. \<open>write\<close> returns once the producer is done,
  the channels are closed and every writer has drained its channel (\<open>finished\<close>).
\<close>

type_synonym config = "(nat \<times> csv_record) list \<times> csv_record list list \<times> csv_record list list"

fun sends_of :: "(int \<rightharpoonup> int) \<Rightarrow> int \<Rightarrow> csv_record list \<Rightarrow> (nat \<times> csv_record) list" where
  "sends_of idx lineNum [] = []"
| "sends_of idx lineNum (r # rs) =
     (case idx lineNum of
        None \<Rightarrow> sends_of idx (lineNum + 1) rs
      | Some bucketIndex \<Rightarrow> (nat bucketIndex, r) # sends_of idx (lineNum + 1) rs)"

definition sent_to :: "nat \<Rightarrow> (nat \<times> csv_record) list \<Rightarrow> csv_record list" where
  "sent_to j todo = map snd (filter (\<lambda>(i, r). i = j) todo)"

inductive writer_step :: "config \<Rightarrow> config \<Rightarrow> bool" where
  send: "j < length chans \<Longrightarrow> length (chans ! j) < 10000 \<Longrightarrow>
     writer_step ((j, r) # todo, chans, files) (todo, chans[j := chans ! j @ [r]], files)"
| recv: "j < length chans \<Longrightarrow> chans ! j = r # q \<Longrightarrow>
     writer_step (todo, chans, files) (todo, chans[j := q], files[j := files ! j @ [r]])"

definition finished :: "config \<Rightarrow> bool" where
  "finished c = (case c of (todo, chans, files) \<Rightarrow> todo = [] \<and> list_all (\<lambda>q. q = []) chans)"

definition writers_start :: "ranger \<Rightarrow> csv_record list \<Rightarrow> FileBucket list \<Rightarrow> config" where
  "writers_start rng input buckets =
     (case input of
        [] \<Rightarrow> ([], replicate (length buckets) [], replicate (length buckets) [])
      | header # rs \<Rightarrow>
          (sends_of (lineToBucket rng buckets) 1 (header # rs),
           replicate (length buckets) [], replicate (length buckets) [header]))"

section \<open>The split command\<close>

text \<open>
  \<open>splitCmd\<close> runs \<open>scan\<close>, \<open>binpack\<close> and \<open>write\<close> in turn. The result is the contents
  of the files \<open>prefix1.csv\<close>, \<open>prefix2.csv\<close>, ... in this order, and the lines printed.
  Files are only created inside \<open>write\<close>: a fault of \<open>scan\<close> or \<open>binpack\<close> leaves none.
\<close>

definition splitCmd ::
  "sorter \<Rightarrow> ranger \<Rightarrow> csv_record list \<Rightarrow> int \<Rightarrow> fault + (csv_record list list \<times> event list)"
where
  "splitCmd srt rng input bucketsN =
     (case scan input of
        Inl f \<Rightarrow> Inl f
      | Inr (metas, scan_log) \<Rightarrow>
          (case binpack srt metas bucketsN of
             Inl f \<Rightarrow> Inl f
           | Inr buckets \<Rightarrow>
               (case write_files rng input buckets of
                  Inl f \<Rightarrow> Inl f
                | Inr (outs, write_log) \<Rightarrow> Inr (outs, scan_log @ write_log))))"

section \<open>The partitioner as the specification words it\<close>

text \<open>
  These definitions follow the specification, not the code: sort the metas by weight
  descending, ties by ordinal ascending (\<open>spec_order\<close>); assign each meta in that order
  to the first bucket, in index order, whose total is minimal (\<open>spec_lightest\<close>), adding
  its weight to the total and its ordinal to the members (\<open>spec_assign\<close>).
  \<open>spec_greedy\<close> runs the assignment over a given order from \<open>B\<close> empty buckets.
\<close>

definition spec_order :: "LineMeta list \<Rightarrow> LineMeta list" where
  "spec_order metas = sort_key (\<lambda>m. (- sint (Size m), LineNumber m)) metas"

fun first_index :: "('a \<Rightarrow> bool) \<Rightarrow> 'a list \<Rightarrow> nat" where
  "first_index P [] = 0"
| "first_index P (x # xs) = (if P x then 0 else Suc (first_index P xs))"

definition spec_lightest :: "FileBucket list \<Rightarrow> nat" where
  "spec_lightest bs =
     first_index (\<lambda>b. \<forall>c\<in>set bs. sint (TotalSize b) \<le> sint (TotalSize c)) bs"

definition spec_assign :: "FileBucket list \<Rightarrow> LineMeta \<Rightarrow> FileBucket list" where
  "spec_assign bs m =
     bs[spec_lightest bs :=
          \<lparr>TotalSize = TotalSize (bs ! spec_lightest bs) + Size m,
           LineNums = finsert (LineNumber m) (LineNums (bs ! spec_lightest bs))\<rparr>]"

definition spec_greedy :: "nat \<Rightarrow> LineMeta list \<Rightarrow> FileBucket list" where
  "spec_greedy B ms = foldl spec_assign (replicate B \<lparr>TotalSize = 0, LineNums = {||}\<rparr>) ms"

definition spec_partition :: "LineMeta list \<Rightarrow> nat \<Rightarrow> FileBucket list" where
  "spec_partition metas B = spec_greedy B (spec_order metas)"

text \<open>
  The outputs as the specification words them: one per bucket, the header record
  followed by every data record whose ordinal (1 for the first data record) is in the
  bucket's member set, in input order.
\<close>

definition spec_outputs :: "csv_record list \<Rightarrow> FileBucket list \<Rightarrow> csv_record list list" where
  "spec_outputs input buckets =
     (case input of
        [] \<Rightarrow> map (\<lambda>b. []) buckets
      | header # rs \<Rightarrow>
          map (\<lambda>b. header #
                 map snd (filter (\<lambda>(ordinal, r). ordinal |\<in>| LineNums b)
                            (zip (map int [1..<Suc (length rs)]) rs)))
              buckets)"

section \<open>Notions used in the proofs\<close>

text \<open>
  \<open>assigned_once bs S\<close>: the buckets hold line numbers of \<open>S\<close> only, and every line
  number of \<open>S\<close> is in exactly one bucket.
\<close>

definition assigned_once :: "FileBucket list \<Rightarrow> int set \<Rightarrow> bool" where
  "assigned_once bs S =
     ((\<forall>i<length bs. fset (LineNums (bs ! i)) \<subseteq> S) \<and>
      (\<forall>l\<in>S. \<exists>!i. i < length bs \<and> l |\<in>| LineNums (bs ! i)))"

text \<open>
  \<open>routed idx lineNum rs j\<close>: the records of \<open>rs\<close>, numbered from \<open>lineNum\<close> on, whose
  number the index maps to bucket \<open>j\<close>, in order.
\<close>

fun routed :: "(int \<rightharpoonup> int) \<Rightarrow> int \<Rightarrow> csv_record list \<Rightarrow> int \<Rightarrow> csv_record list" where
  "routed idx lineNum [] j = []"
| "routed idx lineNum (r # rs) j =
     (if idx lineNum = Some j then r # routed idx (lineNum + 1) rs j
      else routed idx (lineNum + 1) rs j)"

text \<open>
  \<open>balance whole c\<close>: in configuration \<open>c\<close>, for every bucket, what is written, then
  what is buffered, then what is still to send makes up the list \<open>whole\<close> of that bucket.
\<close>

definition balance :: "csv_record list list \<Rightarrow> config \<Rightarrow> bool" where
  "balance whole c =
     (case c of (todo, chans, files) \<Rightarrow>
        length chans = length whole \<and> length files = length whole \<and>
        (\<forall>j<length whole. files ! j @ chans ! j @ sent_to j todo = whole ! j))"

section \<open>The index and the faults of the stages\<close>

lemma index_keys_apply:
  "index_keys ks i m l = (if l \<in> set ks then Some i else m l)"
  by (induction ks arbitrary: m) auto

lemma index_buckets_value:
  "index_buckets rng bs i m l = Some v \<Longrightarrow> m l = Some v \<or> (i \<le> v \<and> v < i + int (length bs))"
proof (induction bs arbitrary: i m)
  case Nil
  then show ?case by simp
next
  case (Cons b bs)
  from Cons.prems have
    "index_buckets rng bs (i + 1) (index_keys (rng (LineNums b)) i m) l = Some v"
    by simp
  from Cons.IH [OF this]
  show ?case by (auto simp: index_keys_apply split: if_splits)
qed

lemma lineToBucket_value:
  "lineToBucket rng buckets l = Some v \<Longrightarrow> 0 \<le> v \<and> v < int (length buckets)"
  using index_buckets_value [of rng buckets 0 Map.empty l v]
  by (simp add: lineToBucket_def)

lemma write_loop_returns:
  assumes "\<And>l v. idx l = Some v \<Longrightarrow> 0 \<le> v \<and> v < int (length outs)"
  shows "\<exists>res. write_loop idx rs lineNum outs log = Inr res"
  using assms
proof (induction rs arbitrary: lineNum outs log)
  case Nil
  then show ?case by simp
next
  case (Cons r rs)
  show ?case
  proof (cases "idx (if lineNum = 0 then lineNum + 1 else lineNum)")
    case None
    then show ?thesis using Cons.IH Cons.prems by (simp add: Let_def)
  next
    case (Some v)
    with Cons.prems have "0 \<le> v \<and> v < int (length outs)" by blast
    then show ?thesis using Some Cons.IH Cons.prems by (simp add: Let_def)
  qed
qed

lemma write_files_returns: "\<exists>res. write_files rng input buckets = Inr res"
  unfolding write_files_def
  by (rule write_loop_returns) (use lineToBucket_value in simp)


lemma scan_loop_fault:
  "scan_loop rs line metas log = Inl f \<Longrightarrow> f = ScanFieldIndexPanic"
  by (induction rs arbitrary: line metas log) (auto simp: Let_def split: if_splits)

lemma scan_fault:
  "scan input = Inl f \<Longrightarrow> f = ScanHeaderPanic \<or> f = ScanFieldIndexPanic"
  by (cases input) (auto dest: scan_loop_fault)

lemma place_fault: "place bucketsN buckets meta = Inl f \<Longrightarrow> f = BinpackIndexPanic"
  by (auto simp: place_def Let_def split: if_splits)

lemma place_all_fault:
  "place_all bucketsN buckets metas = Inl f \<Longrightarrow> f = BinpackIndexPanic"
  by (induction metas arbitrary: buckets) (auto split: sum.splits dest: place_fault)

lemma binpack_fault:
  "binpack srt metas bucketsN = Inl f \<Longrightarrow> f = BinpackMakeslicePanic \<or> f = BinpackIndexPanic"
  by (auto simp: binpack_def Let_def split: if_splits dest: place_all_fault)

lemma splitCmd_fault:
  assumes "splitCmd srt rng input bucketsN = Inl f"
  shows "f = ScanHeaderPanic \<or> f = ScanFieldIndexPanic \<or>
         f = BinpackMakeslicePanic \<or> f = BinpackIndexPanic"
proof (cases "scan input")
  case (Inl g)
  with assms scan_fault [OF Inl] show ?thesis by (auto simp: splitCmd_def)
next
  case (Inr sc)
  obtain metas scan_log where sc: "sc = (metas, scan_log)" by (cases sc)
  show ?thesis
  proof (cases "binpack srt metas bucketsN")
    case (Inl g)
    with assms Inr sc binpack_fault [OF Inl] show ?thesis by (auto simp: splitCmd_def)
  next
    case bp: (Inr bs)
    from write_files_returns [of rng input bs] obtain res
      where "write_files rng input bs = Inr res" by blast
    with assms Inr sc bp show ?thesis by (auto simp: splitCmd_def split: prod.splits)
  qed
qed

text \<open>
  Claim C10. Every value stored in \<open>lineToBucket\<close> is the position of a bucket, so it
  lies between 0 and the number of buckets (excluded), whatever the buckets and the
  order in which the keys are visited. Hence \<open>write\<close> never takes its out-of-range
  branch, and neither does the whole command.
\<close>

theorem lineToBucket_in_range:
  "(\<forall>v. lineToBucket rng buckets lineNum = Some v \<longrightarrow> 0 \<le> v \<and> v < int (length buckets)) \<and>
   (\<exists>res. write_files rng input buckets = Inr res) \<and>
   (\<forall>b l. splitCmd srt rng input bucketsN \<noteq> Inl (WriteBucketOutOfRange b l))"
proof (intro conjI allI)
  fix v
  show "lineToBucket rng buckets lineNum = Some v \<longrightarrow> 0 \<le> v \<and> v < int (length buckets)"
    using lineToBucket_value by blast
next
  show "\<exists>res. write_files rng input buckets = Inr res"
    by (rule write_files_returns)
next
  fix b l
  show "splitCmd srt rng input bucketsN \<noteq> Inl (WriteBucketOutOfRange b l)"
    using splitCmd_fault [of srt rng input bucketsN "WriteBucketOutOfRange b l"] by auto
qed

theorem lineToBucket_in_range_witness:
  "lineToBucket sorted_list_of_fset
     [\<lparr>TotalSize = 10, LineNums = {|1|}\<rparr>, \<lparr>TotalSize = 1, LineNums = {|2|}\<rparr>] 2 = Some 1 \<and>
   (0::int) \<le> 1 \<and>
   (1::int) < int (length [\<lparr>TotalSize = 10, LineNums = {|1|}\<rparr>, \<lparr>TotalSize = 1, LineNums = {|2|}\<rparr>])"
proof -
  have h: "lineToBucket sorted_list_of_fset
     [\<lparr>TotalSize = 10, LineNums = {|1|}\<rparr>, \<lparr>TotalSize = 1, LineNums = {|2|}\<rparr>] 2 = Some 1"
    by code_simp
  from lineToBucket_in_range [of sorted_list_of_fset
     "[\<lparr>TotalSize = 10, LineNums = {|1|}\<rparr>, \<lparr>TotalSize = 1, LineNums = {|2|}\<rparr>]" 2] h
  show ?thesis by blast
qed

text \<open>
  The two early branches of the read loop, in terms of its own counter \<open>lineNum\<close>
  (for a record after the first): when the counter is absent from the index, the
  record is written to no file, the warning is printed and the loop goes on with the
  next record and the next counter value; when the counter maps to an index outside
  \<open>[0, len(channels))\<close>, the whole pass stops with the fatal fault.
\<close>

lemma write_loop_step_by_counter:
  assumes "lineNum \<noteq> 0"
  shows "(idx lineNum = None \<longrightarrow>
            write_loop idx (r # rs) lineNum outs log =
            write_loop idx rs (lineNum + 1) outs (log @ [WriteWarning lineNum])) \<and>
         (\<forall>b. idx lineNum = Some b \<and> \<not> (0 \<le> b \<and> b < int (length outs)) \<longrightarrow>
            write_loop idx (r # rs) lineNum outs log = Inl (WriteBucketOutOfRange b lineNum))"
  using assms by (auto simp: Let_def)

section \<open>binpack: totals and membership\<close>

lemma min_loop_less:
  "minIndex < i \<Longrightarrow> int i \<le> bucketsN \<Longrightarrow> min_loop buckets bucketsN i minIndex < nat bucketsN"
proof (induction buckets bucketsN i minIndex rule: min_loop.induct)
  case (1 buckets bucketsN i minIndex)
  show ?case
  proof (cases "int i < bucketsN")
    case True
    then show ?thesis
      using "1.IH" "1.prems" by (subst min_loop.simps) auto
  next
    case False
    then show ?thesis
      using "1.prems" by (subst min_loop.simps) auto
  qed
qed

lemma place_Inr:
  assumes "1 \<le> bucketsN" "length buckets = nat bucketsN"
  shows "\<exists>k<length buckets. place bucketsN buckets meta =
           Inr (buckets[k := \<lparr>TotalSize = TotalSize (buckets ! k) + Size meta,
                               LineNums = finsert (LineNumber meta) (LineNums (buckets ! k))\<rparr>])"
proof -
  have "min_loop buckets bucketsN 1 0 < nat bucketsN"
    using assms by (intro min_loop_less) auto
  then show ?thesis
    using assms by (auto simp: place_def Let_def)
qed

lemma sum_list_map_update:
  fixes f :: "'a \<Rightarrow> 'b::ab_group_add"
  shows "k < length xs \<Longrightarrow> sum_list (map f (xs[k := y])) = sum_list (map f xs) - f (xs ! k) + f y"
proof (induction xs arbitrary: k)
  case Nil
  then show ?case by simp
next
  case (Cons x xs)
  then show ?case by (cases k) (auto simp: algebra_simps)
qed

lemma place_all_sum:
  assumes "1 \<le> bucketsN" "length buckets = nat bucketsN"
  shows "\<exists>bs. place_all bucketsN buckets metas = Inr bs \<and> length bs = nat bucketsN \<and>
              sum_list (map TotalSize bs) = sum_list (map TotalSize buckets) + sum_list (map Size metas)"
  using assms
proof (induction metas arbitrary: buckets)
  case Nil
  then show ?case by simp
next
  case (Cons meta metas)
  from place_Inr [OF Cons.prems, of meta] obtain k where k: "k < length buckets"
    and p: "place bucketsN buckets meta =
           Inr (buckets[k := \<lparr>TotalSize = TotalSize (buckets ! k) + Size meta,
                               LineNums = finsert (LineNumber meta) (LineNums (buckets ! k))\<rparr>])"
    (is "_ = Inr ?bs1")
    by blast
  have len: "length ?bs1 = nat bucketsN" using Cons.prems by simp
  from Cons.IH [OF Cons.prems(1) len] obtain bs where
    bs: "place_all bucketsN ?bs1 metas = Inr bs" "length bs = nat bucketsN"
      "sum_list (map TotalSize bs) = sum_list (map TotalSize ?bs1) + sum_list (map Size metas)"
    by blast
  have "sum_list (map TotalSize ?bs1) = sum_list (map TotalSize buckets) + Size meta"
    using k by (simp add: sum_list_map_update)
  with bs p show ?case by (simp add: algebra_simps)
qed

lemma sum_list_map_perm:
  fixes f :: "'a \<Rightarrow> 'b::comm_monoid_add"
  assumes "mset xs = mset ys"
  shows "sum_list (map f xs) = sum_list (map f ys)"
proof -
  have "mset (map f xs) = mset (map f ys)" using assms by simp
  then have "sum_mset (mset (map f xs)) = sum_mset (mset (map f ys))" by (rule arg_cong)
  then show ?thesis by (simp only: sum_mset_sum_list)
qed

lemma binpack_sum_word:
  assumes "sort_Slice_ok srt" "1 \<le> bucketsN"
  shows "\<exists>bs. binpack srt metas bucketsN = Inr bs \<and> length bs = nat bucketsN \<and>
              sum_list (map TotalSize bs) = sum_list (map Size metas)"
proof -
  have perm: "mset (srt size_greater metas) = mset metas"
    using assms(1) by (simp add: sort_Slice_ok_def)
  let ?init = "replicate (nat bucketsN) \<lparr>TotalSize = 0, LineNums = {||}\<rparr>"
  have z: "sum_list (map TotalSize ?init) = 0" by (simp add: sum_list_replicate)
  from place_all_sum [OF assms(2), of ?init "srt size_greater metas"] obtain bs where
    "place_all bucketsN ?init (srt size_greater metas) = Inr bs" "length bs = nat bucketsN"
    "sum_list (map TotalSize bs) = sum_list (map TotalSize ?init) + sum_list (map Size (srt size_greater metas))"
    by auto
  then show ?thesis
    using assms(2) z sum_list_map_perm [OF perm, of Size] by (auto simp: binpack_def Let_def)
qed


lemma assigned_once_step:
  assumes inv: "assigned_once bs S" and l: "l \<notin> S" and k: "k < length bs"
  shows "assigned_once (bs[k := \<lparr>TotalSize = t, LineNums = finsert l (LineNums (bs ! k))\<rparr>]) (insert l S)"
    (is "assigned_once ?bs' _")
proof -
  have sub: "\<And>i. i < length bs \<Longrightarrow> fset (LineNums (bs ! i)) \<subseteq> S"
    and uniq: "\<And>x. x \<in> S \<Longrightarrow> \<exists>!i. i < length bs \<and> x |\<in>| LineNums (bs ! i)"
    using inv by (auto simp: assigned_once_def)
  have mem: "\<And>i. i < length bs \<Longrightarrow>
      fset (LineNums (?bs' ! i)) = (if i = k then insert l (fset (LineNums (bs ! k))) else fset (LineNums (bs ! i)))"
    using k by (simp add: nth_list_update)
  have notin: "\<And>i. i < length bs \<Longrightarrow> l \<notin> fset (LineNums (bs ! i))"
    using sub l by blast
  have 1: "\<forall>i<length ?bs'. fset (LineNums (?bs' ! i)) \<subseteq> insert l S"
    using sub mem by (auto split: if_splits)
  have 2: "\<exists>!i. i < length ?bs' \<and> x |\<in>| LineNums (?bs' ! i)" if x: "x \<in> insert l S" for x
  proof (cases "x = l")
    case True
    have "k < length ?bs' \<and> x |\<in>| LineNums (?bs' ! k)" using True k mem by simp
    moreover have "i = k" if "i < length ?bs' \<and> x |\<in>| LineNums (?bs' ! i)" for i
      using that True mem [of i] notin [of i] by (auto split: if_splits)
    ultimately show ?thesis by blast
  next
    case False
    with x have xS: "x \<in> S" by simp
    have eq: "\<And>i. i < length bs \<Longrightarrow> x |\<in>| LineNums (?bs' ! i) \<longleftrightarrow> x |\<in>| LineNums (bs ! i)"
      using False mem by (auto split: if_splits)
    from uniq [OF xS] obtain i where i: "i < length bs" "x |\<in>| LineNums (bs ! i)"
      and u: "\<And>j. j < length bs \<Longrightarrow> x |\<in>| LineNums (bs ! j) \<Longrightarrow> j = i"
      by blast
    have "i < length ?bs' \<and> x |\<in>| LineNums (?bs' ! i)" using i eq by simp
    moreover have "j = i" if "j < length ?bs' \<and> x |\<in>| LineNums (?bs' ! j)" for j
      using that eq [of j] u [of j] by simp
    ultimately show ?thesis by blast
  qed
  from 1 2 show ?thesis unfolding assigned_once_def by blast
qed

lemma place_all_assigned_once:
  assumes "1 \<le> bucketsN" "length buckets = nat bucketsN"
    and "distinct (map LineNumber metas)" "LineNumber ` set metas \<inter> S = {}"
    and "assigned_once buckets S"
  shows "\<exists>bs. place_all bucketsN buckets metas = Inr bs \<and> length bs = nat bucketsN \<and>
              assigned_once bs (S \<union> LineNumber ` set metas)"
  using assms
proof (induction metas arbitrary: buckets S)
  case Nil
  then show ?case by simp
next
  case (Cons meta metas)
  from place_Inr [OF Cons.prems(1,2), of meta] obtain k where k: "k < length buckets"
    and p: "place bucketsN buckets meta =
           Inr (buckets[k := \<lparr>TotalSize = TotalSize (buckets ! k) + Size meta,
                               LineNums = finsert (LineNumber meta) (LineNums (buckets ! k))\<rparr>])"
    (is "_ = Inr ?bs1")
    by blast
  have len: "length ?bs1 = nat bucketsN" using Cons.prems by simp
  have fresh: "LineNumber meta \<notin> S" using Cons.prems(4) by auto
  have inv1: "assigned_once ?bs1 (insert (LineNumber meta) S)"
    by (rule assigned_once_step [OF Cons.prems(5) fresh k])
  have d: "distinct (map LineNumber metas)" using Cons.prems(3) by simp
  have disj: "LineNumber ` set metas \<inter> insert (LineNumber meta) S = {}"
    using Cons.prems(3,4) by auto
  from Cons.IH [OF Cons.prems(1) len d disj inv1] obtain bs where
    "place_all bucketsN ?bs1 metas = Inr bs" "length bs = nat bucketsN"
    "assigned_once bs (insert (LineNumber meta) S \<union> LineNumber ` set metas)"
    by blast
  then show ?case using p by (simp add: Un_commute insert_commute) 
qed

lemma assigned_once_init:
  "assigned_once (replicate n \<lparr>TotalSize = 0, LineNums = {||}\<rparr>) {}"
  by (simp add: assigned_once_def)

lemma binpack_assigned_once:
  assumes "sort_Slice_ok srt" "1 \<le> bucketsN" "distinct (map LineNumber metas)"
  shows "\<exists>bs. binpack srt metas bucketsN = Inr bs \<and> length bs = nat bucketsN \<and>
              assigned_once bs (LineNumber ` set metas)"
proof -
  have perm: "mset (srt size_greater metas) = mset metas"
    using assms(1) by (simp add: sort_Slice_ok_def)
  then have "mset (map LineNumber (srt size_greater metas)) = mset (map LineNumber metas)"
    by simp
  then have d: "distinct (map LineNumber (srt size_greater metas))"
    using assms(3) mset_eq_imp_distinct_iff by blast
  have s: "set (srt size_greater metas) = set metas"
    using perm by (rule mset_eq_setD)
  let ?init = "replicate (nat bucketsN) \<lparr>TotalSize = 0, LineNums = {||}\<rparr>"
  from place_all_assigned_once [OF assms(2) _ d _ assigned_once_init, of "nat bucketsN"]
  obtain bs where
    "place_all bucketsN ?init (srt size_greater metas) = Inr bs" "length bs = nat bucketsN"
    "assigned_once bs ({} \<union> LineNumber ` set (srt size_greater metas))"
    by auto
  then show ?thesis
    using assms(2) s by (auto simp: binpack_def Let_def)
qed


lemma sint_add_no_overflow:
  fixes a b :: "64 word"
  assumes "0 \<le> sint a" "0 \<le> sint b" "sint a + sint b < 2 ^ 63"
  shows "sint (a + b) = sint a + sint b"
proof -
  have "sint (a + b) = signed_take_bit (LENGTH(64) - 1) (sint a + sint b)"
    by (rule sint_word_add)
  also have "\<dots> = sint a + sint b"
    using assms by (intro signed_take_bit_int_eq_self) auto
  finally show ?thesis .
qed

lemma nth_le_sum_list_int:
  fixes f :: "'a \<Rightarrow> int"
  shows "\<forall>x\<in>set xs. 0 \<le> f x \<Longrightarrow> k < length xs \<Longrightarrow> f (xs ! k) \<le> sum_list (map f xs)"
proof (induction xs arbitrary: k)
  case Nil
  then show ?case by simp
next
  case (Cons x xs)
  have nn: "0 \<le> sum_list (map f xs)" using Cons.prems(1) by (intro sum_list_nonneg) auto
  show ?case
  proof (cases k)
    case 0
    then show ?thesis using nn by simp
  next
    case (Suc j)
    then have "f (xs ! j) \<le> sum_list (map f xs)" using Cons by auto
    then show ?thesis using Suc Cons.prems(1) by simp
  qed
qed

lemma place_all_sum_sint:
  assumes "1 \<le> bucketsN" "length buckets = nat bucketsN"
    and "\<forall>b\<in>set buckets. 0 \<le> sint (TotalSize b)"
    and "\<forall>m\<in>set metas. 0 \<le> sint (Size m)"
    and "(\<Sum>b\<leftarrow>buckets. sint (TotalSize b)) + (\<Sum>m\<leftarrow>metas. sint (Size m)) < 2 ^ 63"
  shows "\<exists>bs. place_all bucketsN buckets metas = Inr bs \<and>
              (\<Sum>b\<leftarrow>bs. sint (TotalSize b)) =
              (\<Sum>b\<leftarrow>buckets. sint (TotalSize b)) + (\<Sum>m\<leftarrow>metas. sint (Size m))"
  using assms
proof (induction metas arbitrary: buckets)
  case Nil
  then show ?case by simp
next
  case (Cons meta metas)
  from place_Inr [OF Cons.prems(1,2), of meta] obtain k where k: "k < length buckets"
    and p: "place bucketsN buckets meta =
           Inr (buckets[k := \<lparr>TotalSize = TotalSize (buckets ! k) + Size meta,
                               LineNums = finsert (LineNumber meta) (LineNums (buckets ! k))\<rparr>])"
    (is "_ = Inr ?bs1")
    by blast
  let ?t = "\<lambda>b. sint (TotalSize b)"
  have len: "length ?bs1 = nat bucketsN" using Cons.prems by simp
  have m0: "0 \<le> sint (Size meta)" using Cons.prems(4) by simp
  have rest0: "0 \<le> (\<Sum>m\<leftarrow>metas. sint (Size m))"
    using Cons.prems(4) by (intro sum_list_nonneg) auto
  have k0: "0 \<le> ?t (buckets ! k)" using Cons.prems(3) k by simp
  have kle: "?t (buckets ! k) \<le> sum_list (map ?t buckets)"
    using Cons.prems(3) k by (intro nth_le_sum_list_int) auto
  have small: "?t (buckets ! k) + sint (Size meta) < 2 ^ 63"
    using kle rest0 Cons.prems(5) by simp
  have add: "sint (TotalSize (buckets ! k) + Size meta) = ?t (buckets ! k) + sint (Size meta)"
    by (rule sint_add_no_overflow [OF k0 m0 small])
  have sum1: "sum_list (map ?t ?bs1) = sum_list (map ?t buckets) + sint (Size meta)"
    using k add by (simp add: sum_list_map_update)
  have nn1: "\<forall>b\<in>set ?bs1. 0 \<le> ?t b"
  proof
    fix b assume "b \<in> set ?bs1"
    then have "b \<in> insert \<lparr>TotalSize = TotalSize (buckets ! k) + Size meta,
                  LineNums = finsert (LineNumber meta) (LineNums (buckets ! k))\<rparr> (set buckets)"
      using set_update_subset_insert by fastforce
    then show "0 \<le> ?t b" using Cons.prems(3) add k0 m0 by auto
  qed
  have nn2: "\<forall>m\<in>set metas. 0 \<le> sint (Size m)" using Cons.prems(4) by simp
  have bound: "sum_list (map ?t ?bs1) + (\<Sum>m\<leftarrow>metas. sint (Size m)) < 2 ^ 63"
    using sum1 Cons.prems(5) by simp
  from Cons.IH [OF Cons.prems(1) len nn1 nn2 bound] obtain bs where
    "place_all bucketsN ?bs1 metas = Inr bs"
    "sum_list (map ?t bs) = sum_list (map ?t ?bs1) + (\<Sum>m\<leftarrow>metas. sint (Size m))"
    by blast
  then show ?case using p sum1 by simp
qed


lemma mset_sink: "mset (sink lt x ys) = add_mset x (mset ys)"
  by (induction ys) auto

lemma mset_insertion_loop: "mset (insertion_loop lt placed xs) = mset placed + mset xs"
  by (induction xs arbitrary: placed) (auto simp: mset_sink)

lemma set_sink: "set (sink lt x ys) = insert x (set ys)"
  using mset_sink [of lt x ys] by (metis set_mset_add_mset_insert set_mset_mset)

lemma sorted_sink:
  "sorted_wrt (\<lambda>a b. \<not> size_greater a b) ys \<Longrightarrow>
   sorted_wrt (\<lambda>a b. \<not> size_greater a b) (sink size_greater x ys)"
  by (induction ys) (auto simp: set_sink size_greater_def)

lemma sorted_insertion_loop:
  "sorted_wrt (\<lambda>a b. \<not> size_greater a b) placed \<Longrightarrow>
   sorted_wrt (\<lambda>a b. \<not> size_greater b a) (insertion_loop size_greater placed xs)"
  by (induction xs arbitrary: placed) (auto simp: sorted_sink sorted_wrt_rev)

lemma insertionSort_ok: "sort_Slice_ok insertionSort"
  by (simp add: sort_Slice_ok_def insertionSort_def mset_insertion_loop sorted_insertion_loop)

text \<open>
  Claim C5. For every metadata sequence and every bucket count of at least 1 (and
  every sort that permutes its input), \<open>binpack\<close> returns \<open>bucketsN\<close> buckets, and the
  sum of their \<open>TotalSize\<close> equals the sum of the \<open>Size\<close> of the metas. The sums are
  those of Go's \<open>int64\<close>, which wrap; when the sizes are not negative and their sum
  fits in an \<open>int64\<close>, nothing wraps and the sums are equal as integers.
\<close>

theorem binpack_total_size:
  assumes "sort_Slice_ok srt" and "1 \<le> bucketsN"
  shows "\<exists>bs. binpack srt metas bucketsN = Inr bs \<and> length bs = nat bucketsN \<and>
     sum_list (map TotalSize bs) = sum_list (map Size metas) \<and>
     ((\<forall>m\<in>set metas. 0 \<le> sint (Size m)) \<and> (\<Sum>m\<leftarrow>metas. sint (Size m)) < 2 ^ 63 \<longrightarrow>
        (\<Sum>b\<leftarrow>bs. sint (TotalSize b)) = (\<Sum>m\<leftarrow>metas. sint (Size m)))"
proof -
  from binpack_sum_word [OF assms, of metas] obtain bs where
    bs: "binpack srt metas bucketsN = Inr bs" "length bs = nat bucketsN"
      "sum_list (map TotalSize bs) = sum_list (map Size metas)"
    by blast
  have "(\<Sum>b\<leftarrow>bs. sint (TotalSize b)) = (\<Sum>m\<leftarrow>metas. sint (Size m))"
    if nn: "\<forall>m\<in>set metas. 0 \<le> sint (Size m)" and small: "(\<Sum>m\<leftarrow>metas. sint (Size m)) < 2 ^ 63"
  proof -
    have perm: "mset (srt size_greater metas) = mset metas"
      using assms(1) by (simp add: sort_Slice_ok_def)
    let ?init = "replicate (nat bucketsN) \<lparr>TotalSize = 0, LineNums = {||}\<rparr>"
    let ?sorted = "srt size_greater metas"
    have s: "(\<Sum>m\<leftarrow>?sorted. sint (Size m)) = (\<Sum>m\<leftarrow>metas. sint (Size m))"
      by (rule sum_list_map_perm [OF perm])
    have z: "(\<Sum>b\<leftarrow>?init. sint (TotalSize b)) = 0" by (simp add: sum_list_replicate)
    have nn': "\<forall>m\<in>set ?sorted. 0 \<le> sint (Size m)"
      using nn mset_eq_setD [OF perm] by simp
    have "\<exists>bs'. place_all bucketsN ?init ?sorted = Inr bs' \<and>
              (\<Sum>b\<leftarrow>bs'. sint (TotalSize b)) =
              (\<Sum>b\<leftarrow>?init. sint (TotalSize b)) + (\<Sum>m\<leftarrow>?sorted. sint (Size m))"
      by (rule place_all_sum_sint [OF assms(2)]) (use nn' small s z in simp_all)
    then show ?thesis
      using bs(1) assms(2) s z by (auto simp: binpack_def Let_def)
  qed
  with bs show ?thesis by blast
qed

theorem binpack_total_size_witness:
  "sort_Slice_ok insertionSort \<and> (1::int) \<le> 2 \<and>
   list_all (\<lambda>m. 0 \<le> sint (Size m))
     [\<lparr>LineNumber = 1, Size = 1\<rparr>, \<lparr>LineNumber = 2, Size = 10\<rparr>, \<lparr>LineNumber = 3, Size = 1\<rparr>] \<and>
   (\<Sum>m\<leftarrow>[\<lparr>LineNumber = 1, Size = 1\<rparr>, \<lparr>LineNumber = 2, Size = 10\<rparr>, \<lparr>LineNumber = 3, Size = 1\<rparr>].
      sint (Size m)) < 2 ^ 63 \<and>
   binpack insertionSort
     [\<lparr>LineNumber = 1, Size = 1\<rparr>, \<lparr>LineNumber = 2, Size = 10\<rparr>, \<lparr>LineNumber = 3, Size = 1\<rparr>] 2 =
     Inr [\<lparr>TotalSize = 10, LineNums = {|2|}\<rparr>, \<lparr>TotalSize = 2, LineNums = {|3, 1|}\<rparr>] \<and>
   sum_list (map TotalSize [\<lparr>TotalSize = 10, LineNums = {|2|}\<rparr>, \<lparr>TotalSize = 2, LineNums = {|3, 1|}\<rparr>]) =
   sum_list (map Size [\<lparr>LineNumber = 1, Size = 1\<rparr>, \<lparr>LineNumber = 2, Size = 10\<rparr>, \<lparr>LineNumber = 3, Size = 1\<rparr>]) \<and>
   (\<Sum>b\<leftarrow>[\<lparr>TotalSize = 10, LineNums = {|2|}\<rparr>, \<lparr>TotalSize = 2, LineNums = {|3, 1|}\<rparr>]. sint (TotalSize b)) =
   (\<Sum>m\<leftarrow>[\<lparr>LineNumber = 1, Size = 1\<rparr>, \<lparr>LineNumber = 2, Size = 10\<rparr>, \<lparr>LineNumber = 3, Size = 1\<rparr>].
      sint (Size m))"
proof -
  let ?metas = "[\<lparr>LineNumber = 1, Size = 1\<rparr>, \<lparr>LineNumber = 2, Size = 10\<rparr>, \<lparr>LineNumber = 3, Size = 1\<rparr>]"
  let ?bs = "[\<lparr>TotalSize = 10, LineNums = {|2|}\<rparr>, \<lparr>TotalSize = 2, LineNums = {|3, 1|}\<rparr>]"
  have h2: "(1::int) \<le> 2" by simp
  have nn: "\<forall>m\<in>set ?metas. 0 \<le> sint (Size m)" by simp
  have small: "(\<Sum>m\<leftarrow>?metas. sint (Size m)) < 2 ^ 63" by simp
  have run: "binpack insertionSort ?metas 2 = Inr ?bs" by code_simp
  from binpack_total_size [OF insertionSort_ok h2, of ?metas] run nn small
  have "sum_list (map TotalSize ?bs) = sum_list (map Size ?metas) \<and>
        (\<Sum>b\<leftarrow>?bs. sint (TotalSize b)) = (\<Sum>m\<leftarrow>?metas. sint (Size m))"
    by auto
  moreover have "list_all (\<lambda>m. 0 \<le> sint (Size m)) ?metas" by simp
  ultimately show ?thesis using insertionSort_ok h2 small run by blast
qed

text \<open>
  Claim C6. For every metadata sequence with pairwise distinct line numbers and every
  bucket count of at least 1, \<open>binpack\<close> returns \<open>bucketsN\<close> buckets such that every
  line number of the sequence is in the \<open>LineNums\<close> of exactly one bucket, and the
  buckets hold no other line number.
\<close>

theorem binpack_partitions_ordinals:
  assumes "sort_Slice_ok srt" and "1 \<le> bucketsN" and "distinct (map LineNumber metas)"
  shows "\<exists>bs. binpack srt metas bucketsN = Inr bs \<and> length bs = nat bucketsN \<and>
     (\<forall>m\<in>set metas. \<exists>!i. i < length bs \<and> LineNumber m |\<in>| LineNums (bs ! i)) \<and>
     (\<forall>i<length bs. fset (LineNums (bs ! i)) \<subseteq> LineNumber ` set metas)"
  using binpack_assigned_once [OF assms] unfolding assigned_once_def by auto

theorem binpack_partitions_ordinals_witness:
  "sort_Slice_ok insertionSort \<and> (1::int) \<le> 2 \<and>
   distinct (map LineNumber
     [\<lparr>LineNumber = 1, Size = 1\<rparr>, \<lparr>LineNumber = 2, Size = 10\<rparr>, \<lparr>LineNumber = 3, Size = 1\<rparr>]) \<and>
   (\<exists>bs. binpack insertionSort
     [\<lparr>LineNumber = 1, Size = 1\<rparr>, \<lparr>LineNumber = 2, Size = 10\<rparr>, \<lparr>LineNumber = 3, Size = 1\<rparr>] 2 = Inr bs \<and>
     length bs = 2 \<and>
     (\<exists>!i. i < length bs \<and> 3 |\<in>| LineNums (bs ! i)))"
proof -
  have h2: "(1::int) \<le> 2" by simp
  have d: "distinct (map LineNumber
     [\<lparr>LineNumber = 1, Size = 1\<rparr>, \<lparr>LineNumber = 2, Size = 10\<rparr>, \<lparr>LineNumber = 3, Size = (1::64 word)\<rparr>])"
    by simp
  from binpack_partitions_ordinals [OF insertionSort_ok h2 d]
  show ?thesis using insertionSort_ok h2 d by auto
qed

section \<open>binpack: the greedy assignment\<close>

lemma min_loop_first_min:
  assumes "minIndex < i" "int i \<le> bucketsN"
    and "\<forall>j<i. sint (TotalSize (buckets ! minIndex)) \<le> sint (TotalSize (buckets ! j))"
    and "\<forall>j<minIndex. sint (TotalSize (buckets ! minIndex)) < sint (TotalSize (buckets ! j))"
  shows "min_loop buckets bucketsN i minIndex < nat bucketsN \<and>
     (\<forall>j<nat bucketsN. sint (TotalSize (buckets ! min_loop buckets bucketsN i minIndex))
                        \<le> sint (TotalSize (buckets ! j))) \<and>
     (\<forall>j<min_loop buckets bucketsN i minIndex.
         sint (TotalSize (buckets ! min_loop buckets bucketsN i minIndex))
           < sint (TotalSize (buckets ! j)))"
  using assms
proof (induction buckets bucketsN i minIndex rule: min_loop.induct)
  case (1 buckets bucketsN i minIndex)
  let ?t = "\<lambda>j. sint (TotalSize (buckets ! j))"
  show ?case
  proof (cases "int i < bucketsN")
    case False
    with "1.prems" have "nat bucketsN = i" by simp
    moreover have "min_loop buckets bucketsN i minIndex = minIndex"
      using False by (subst min_loop.simps) simp
    ultimately show ?thesis using "1.prems" by simp
  next
    case True
    let ?m = "if ?t i < ?t minIndex then i else minIndex"
    have unfold: "min_loop buckets bucketsN i minIndex = min_loop buckets bucketsN (i + 1) ?m"
      using True by (subst min_loop.simps) simp
    have a: "?m < i + 1" using "1.prems"(1) by simp
    have b: "int (i + 1) \<le> bucketsN" using True by simp
    have c: "\<forall>j<i + 1. ?t ?m \<le> ?t j"
    proof (intro allI impI)
      fix j assume "j < i + 1"
      then have "j < i \<or> j = i" by auto
      then show "?t ?m \<le> ?t j" using "1.prems"(3) by (auto split: if_splits)
    qed
    have d: "\<forall>j<?m. ?t ?m < ?t j"
    proof (intro allI impI)
      fix j assume j: "j < ?m"
      show "?t ?m < ?t j"
      proof (cases "?t i < ?t minIndex")
        case True
        with j have "j < i" by simp
        with "1.prems"(3) have "?t minIndex \<le> ?t j" by simp
        with True show ?thesis by simp
      next
        case False
        with j "1.prems"(4) show ?thesis by simp
      qed
    qed
    from "1.IH" [OF True a b c d] show ?thesis unfolding unfold .
  qed
qed

lemma first_index_eq:
  "m < length xs \<Longrightarrow> P (xs ! m) \<Longrightarrow> \<forall>j<m. \<not> P (xs ! j) \<Longrightarrow> first_index P xs = m"
proof (induction xs arbitrary: m)
  case Nil
  then show ?case by simp
next
  case (Cons x xs)
  show ?case
  proof (cases m)
    case 0
    with Cons.prems show ?thesis by simp
  next
    case (Suc k)
    with Cons.prems have "\<not> P x" by auto
    moreover have "first_index P xs = k"
      using Cons.prems Suc by (intro Cons.IH) auto
    ultimately show ?thesis using Suc by simp
  qed
qed

lemma min_loop_spec_lightest:
  assumes "1 \<le> bucketsN" "length buckets = nat bucketsN"
  shows "min_loop buckets bucketsN 1 0 = spec_lightest buckets"
proof -
  let ?k = "min_loop buckets bucketsN 1 0"
  let ?t = "\<lambda>j. sint (TotalSize (buckets ! j))"
  have k: "?k < nat bucketsN" "\<forall>j<nat bucketsN. ?t ?k \<le> ?t j" "\<forall>j<?k. ?t ?k < ?t j"
    using min_loop_first_min [of 0 1 bucketsN buckets] assms(1) by auto
  have "first_index (\<lambda>b. \<forall>c\<in>set buckets. sint (TotalSize b) \<le> sint (TotalSize c)) buckets = ?k"
  proof (rule first_index_eq)
    show "?k < length buckets" using k(1) assms(2) by simp
    show "\<forall>c\<in>set buckets. ?t ?k \<le> sint (TotalSize c)"
      using k(2) assms(2) by (auto simp: in_set_conv_nth)
    show "\<forall>j<?k. \<not> (\<forall>c\<in>set buckets. ?t j \<le> sint (TotalSize c))"
    proof (intro allI impI)
      fix j assume "j < ?k"
      with k(3) have "?t ?k < ?t j" by simp
      moreover have "buckets ! ?k \<in> set buckets" using k(1) assms(2) by simp
      ultimately show "\<not> (\<forall>c\<in>set buckets. ?t j \<le> sint (TotalSize c))"
        by (meson not_le)
    qed
  qed
  then show ?thesis by (simp add: spec_lightest_def)
qed

lemma place_spec_assign:
  assumes "1 \<le> bucketsN" "length buckets = nat bucketsN"
  shows "place bucketsN buckets meta = Inr (spec_assign buckets meta)"
proof -
  have "min_loop buckets bucketsN 1 0 < length buckets"
    using min_loop_first_min [of 0 1 bucketsN buckets] assms by auto
  then show ?thesis
    using min_loop_spec_lightest [OF assms]
    by (simp add: place_def spec_assign_def Let_def)
qed

lemma place_all_foldl:
  assumes "1 \<le> bucketsN" "length buckets = nat bucketsN"
  shows "place_all bucketsN buckets metas = Inr (foldl spec_assign buckets metas)"
  using assms
proof (induction metas arbitrary: buckets)
  case Nil
  then show ?case by simp
next
  case (Cons meta metas)
  have "length (spec_assign buckets meta) = nat bucketsN"
    using Cons.prems by (simp add: spec_assign_def)
  from Cons.IH [OF Cons.prems(1) this] show ?case
    using place_spec_assign [OF Cons.prems] by simp
qed


text \<open>
  Claim C2, amended. For every metadata sequence and every bucket count of at least 1,
  \<open>binpack\<close> processes the metas in the order \<open>sort.Slice\<close> leaves them: a permutation
  of the sequence in which weights never increase. The comparison looks at the weight
  only, so the order among metas of equal weight is the sort's and not the ordinals'.
  Each meta goes to the bucket of minimal current total, the lowest index on ties; its
  weight is added to that total and its ordinal to that member set.
\<close>

theorem binpack_greedy_by_size:
  assumes "sort_Slice_ok srt" and "1 \<le> bucketsN"
  shows "mset (srt size_greater metas) = mset metas \<and>
     sorted_wrt (\<lambda>a b. sint (Size b) \<le> sint (Size a)) (srt size_greater metas) \<and>
     binpack srt metas bucketsN = Inr (spec_greedy (nat bucketsN) (srt size_greater metas))"
proof (intro conjI)
  show "mset (srt size_greater metas) = mset metas"
    using assms(1) by (simp add: sort_Slice_ok_def)
  have "sorted_wrt (\<lambda>a b. \<not> size_greater b a) (srt size_greater metas)"
    using assms(1) by (simp add: sort_Slice_ok_def)
  then show "sorted_wrt (\<lambda>a b. sint (Size b) \<le> sint (Size a)) (srt size_greater metas)"
    by (simp add: size_greater_def not_less)
  show "binpack srt metas bucketsN = Inr (spec_greedy (nat bucketsN) (srt size_greater metas))"
    using assms(2) place_all_foldl [OF assms(2), of "replicate (nat bucketsN) \<lparr>TotalSize = 0, LineNums = {||}\<rparr>"]
    by (simp add: binpack_def spec_greedy_def Let_def)
qed

theorem binpack_greedy_by_size_witness:
  "sort_Slice_ok insertionSort \<and> (1::int) \<le> 2 \<and>
   insertionSort size_greater
     [\<lparr>LineNumber = 1, Size = 1\<rparr>, \<lparr>LineNumber = 2, Size = 10\<rparr>, \<lparr>LineNumber = 3, Size = 1\<rparr>] =
     [\<lparr>LineNumber = 2, Size = 10\<rparr>, \<lparr>LineNumber = 1, Size = 1\<rparr>, \<lparr>LineNumber = 3, Size = 1\<rparr>] \<and>
   binpack insertionSort
     [\<lparr>LineNumber = 1, Size = 1\<rparr>, \<lparr>LineNumber = 2, Size = 10\<rparr>, \<lparr>LineNumber = 3, Size = 1\<rparr>] 2 =
     Inr (spec_greedy (nat 2)
       [\<lparr>LineNumber = 2, Size = 10\<rparr>, \<lparr>LineNumber = 1, Size = 1\<rparr>, \<lparr>LineNumber = 3, Size = 1\<rparr>])"
proof -
  have h2: "(1::int) \<le> 2" by simp
  have srt: "insertionSort size_greater
     [\<lparr>LineNumber = 1, Size = 1\<rparr>, \<lparr>LineNumber = 2, Size = 10\<rparr>, \<lparr>LineNumber = 3, Size = 1\<rparr>] =
     [\<lparr>LineNumber = 2, Size = 10\<rparr>, \<lparr>LineNumber = 1, Size = 1\<rparr>, \<lparr>LineNumber = 3, Size = 1\<rparr>]"
    by code_simp
  from binpack_greedy_by_size [OF insertionSort_ok h2,
      of "[\<lparr>LineNumber = 1, Size = 1\<rparr>, \<lparr>LineNumber = 2, Size = 10\<rparr>, \<lparr>LineNumber = 3, Size = 1\<rparr>]"]
  show ?thesis using insertionSort_ok h2 srt by simp
qed

text \<open>
  Claim C2 as stated fails: on two metas of equal weight listed with ordinal 2 before
  ordinal 1, the insertion sort that \<open>sort.Slice\<close> runs on a slice this short leaves
  them in place, so ordinal 2 is placed first, in bucket 0; with ties broken by ordinal
  ascending, bucket 0 receives ordinal 1.
\<close>

theorem binpack_ties_not_by_ordinal:
  "binpack insertionSort [\<lparr>LineNumber = 2, Size = 5\<rparr>, \<lparr>LineNumber = 1, Size = 5\<rparr>] 2 =
     Inr [\<lparr>TotalSize = 5, LineNums = {|2|}\<rparr>, \<lparr>TotalSize = 5, LineNums = {|1|}\<rparr>] \<and>
   spec_partition [\<lparr>LineNumber = 2, Size = 5\<rparr>, \<lparr>LineNumber = 1, Size = 5\<rparr>] 2 =
     [\<lparr>TotalSize = 5, LineNums = {|1|}\<rparr>, \<lparr>TotalSize = 5, LineNums = {|2|}\<rparr>] \<and>
   binpack insertionSort [\<lparr>LineNumber = 2, Size = 5\<rparr>, \<lparr>LineNumber = 1, Size = 5\<rparr>] 2 \<noteq>
     Inr (spec_partition [\<lparr>LineNumber = 2, Size = 5\<rparr>, \<lparr>LineNumber = 1, Size = 5\<rparr>] 2)"
proof -
  have a: "binpack insertionSort [\<lparr>LineNumber = 2, Size = 5\<rparr>, \<lparr>LineNumber = 1, Size = 5\<rparr>] 2 =
     Inr [\<lparr>TotalSize = 5, LineNums = {|2|}\<rparr>, \<lparr>TotalSize = 5, LineNums = {|1|}\<rparr>]"
    by code_simp
  have b: "spec_partition [\<lparr>LineNumber = 2, Size = 5\<rparr>, \<lparr>LineNumber = 1, Size = 5\<rparr>] 2 =
     [\<lparr>TotalSize = 5, LineNums = {|1|}\<rparr>, \<lparr>TotalSize = 5, LineNums = {|2|}\<rparr>]"
    by code_simp
  show ?thesis unfolding a b by simp
qed

text \<open>
  A sort that keeps the promise of \<open>sort.Slice\<close> may also reverse equal weights that
  arrive in ordinal order; \<open>binpack\<close> then places the larger ordinal first.
\<close>

lemma reversing_sort_ok: "sort_Slice_ok (\<lambda>lt xs. insertionSort lt (rev xs))"
  using insertionSort_ok by (simp add: sort_Slice_ok_def)

lemma binpack_ties_follow_sort:
  "binpack (\<lambda>lt xs. insertionSort lt (rev xs))
     [\<lparr>LineNumber = 1, Size = 5\<rparr>, \<lparr>LineNumber = 2, Size = 5\<rparr>] 2 =
     Inr [\<lparr>TotalSize = 5, LineNums = {|2|}\<rparr>, \<lparr>TotalSize = 5, LineNums = {|1|}\<rparr>] \<and>
   binpack insertionSort
     [\<lparr>LineNumber = 1, Size = 5\<rparr>, \<lparr>LineNumber = 2, Size = 5\<rparr>] 2 =
     Inr [\<lparr>TotalSize = 5, LineNums = {|1|}\<rparr>, \<lparr>TotalSize = 5, LineNums = {|2|}\<rparr>]"
  by code_simp

section \<open>write: what reaches each output\<close>

text \<open>
  What \<open>write\<close> does on every input. The first iteration writes the header to every
  file, sets \<open>lineNum\<close> to 1 and, having no \<open>continue\<close>, goes on to the lookup with the
  header as the record of line 1. So every output begins with the header, and the
  record at position \<open>p\<close> of the whole input (the header at position 0) is routed by
  the index entry of line \<open>p + 1\<close>.
\<close>

lemma write_loop_header_again:
  "write_loop idx (header # rs) 0 outs log =
   write_loop idx (header # rs) 1 (map (\<lambda>out. out @ [header]) outs) log"
  by (simp add: Let_def)

lemma write_loop_routed:
  "write_loop idx rs lineNum outs log = Inr (outs', log') \<Longrightarrow> 0 < lineNum \<Longrightarrow>
   length outs' = length outs \<and>
   (\<forall>j<length outs. outs' ! j = outs ! j @ routed idx lineNum rs (int j))"
proof (induction rs arbitrary: lineNum outs log)
  case Nil
  then show ?case by simp
next
  case (Cons r rs)
  have pos: "0 < lineNum + 1" using Cons.prems(2) by simp
  show ?case
  proof (cases "idx lineNum")
    case None
    with Cons.prems have "write_loop idx rs (lineNum + 1) outs (log @ [WriteWarning lineNum]) = Inr (outs', log')"
      by (simp add: Let_def)
    from Cons.IH [OF this pos] show ?thesis using None by simp
  next
    case (Some b)
    let ?outs1 = "outs[nat b := outs ! nat b @ [r]]"
    let ?log1 = "if lineNum mod 1000000 = 0 then log @ [WriteProgress lineNum] else log"
    from Some Cons.prems have inr: "0 \<le> b \<and> b < int (length outs)"
      by (auto simp: Let_def split: if_splits)
    with Some Cons.prems have "write_loop idx rs (lineNum + 1) ?outs1 ?log1 = Inr (outs', log')"
      by (simp add: Let_def)
    from Cons.IH [OF this pos] have len: "length outs' = length outs"
      and ext: "\<forall>j<length outs. outs' ! j = ?outs1 ! j @ routed idx (lineNum + 1) rs (int j)"
      by simp_all
    have "outs' ! j = outs ! j @ routed idx lineNum (r # rs) (int j)" if j: "j < length outs" for j
    proof (cases "j = nat b")
      case True
      with inr have "int j = b" by simp
      with ext j True Some show ?thesis by simp
    next
      case False
      with inr have "int j \<noteq> b" by auto
      with ext j False Some show ?thesis by simp
    qed
    with len show ?thesis by blast
  qed
qed

lemma write_files_outputs:
  assumes "write_files rng (header # rs) buckets = Inr (outs, log)"
  shows "length outs = length buckets \<and>
     (\<forall>j<length buckets.
        outs ! j = header # routed (lineToBucket rng buckets) 1 (header # rs) (int j))"
proof -
  let ?idx = "lineToBucket rng buckets"
  let ?outs0 = "map (\<lambda>out. out @ [header]) (replicate (length buckets) [])"
  from assms have "write_loop ?idx (header # rs) 1 ?outs0 [] = Inr (outs, log)"
    by (simp only: write_files_def write_loop_header_again)
  from write_loop_routed [OF this] have len: "length outs = length ?outs0"
    and ext: "\<forall>j<length ?outs0. outs ! j = ?outs0 ! j @ routed ?idx 1 (header # rs) (int j)"
    by simp_all
  from ext have "\<forall>j<length buckets. outs ! j = header # routed ?idx 1 (header # rs) (int j)"
    by simp
  with len show ?thesis by simp
qed

text \<open>
  Claim C1 fails on the code. On a header and two data records of weights 10 and 1,
  with two buckets, \<open>binpack\<close> assigns ordinal 1 to bucket 0 and ordinal 2 to bucket 1.
  \<open>write\<close> sends the header to bucket 0 as line 1 and the first data record to
  bucket 1 as line 2, and skips the second data record as line 3. The specification
  asks for the first data record in output 0 and the second in output 1.
\<close>

theorem write_shifts_records:
  "splitCmd insertionSort sorted_list_of_fset
     [[''id'', ''name'', ''size''], [''1'', ''Alice'', ''10''], [''2'', ''Bob'', ''1'']] 2 =
     Inr ([[[''id'', ''name'', ''size''], [''id'', ''name'', ''size'']],
           [[''id'', ''name'', ''size''], [''1'', ''Alice'', ''10'']]],
          [WriteWarning 3]) \<and>
   binpack insertionSort [\<lparr>LineNumber = 1, Size = 10\<rparr>, \<lparr>LineNumber = 2, Size = 1\<rparr>] 2 =
     Inr [\<lparr>TotalSize = 10, LineNums = {|1|}\<rparr>, \<lparr>TotalSize = 1, LineNums = {|2|}\<rparr>] \<and>
   spec_outputs
     [[''id'', ''name'', ''size''], [''1'', ''Alice'', ''10''], [''2'', ''Bob'', ''1'']]
     [\<lparr>TotalSize = 10, LineNums = {|1|}\<rparr>, \<lparr>TotalSize = 1, LineNums = {|2|}\<rparr>] =
     [[[''id'', ''name'', ''size''], [''1'', ''Alice'', ''10'']],
      [[''id'', ''name'', ''size''], [''2'', ''Bob'', ''1'']]]"
proof -
  have sc: "scan [[''id'', ''name'', ''size''], [''1'', ''Alice'', ''10''], [''2'', ''Bob'', ''1'']] =
     Inr ([\<lparr>LineNumber = 1, Size = 10\<rparr>, \<lparr>LineNumber = 2, Size = 1\<rparr>], [])"
    by (simp add: ParseInt_def ParseUint_def)
  have bp: "binpack insertionSort [\<lparr>LineNumber = 1, Size = 10\<rparr>, \<lparr>LineNumber = 2, Size = 1\<rparr>] 2 =
     Inr [\<lparr>TotalSize = 10, LineNums = {|1|}\<rparr>, \<lparr>TotalSize = 1, LineNums = {|2|}\<rparr>]"
    by code_simp
  have wf: "write_files sorted_list_of_fset
     [[''id'', ''name'', ''size''], [''1'', ''Alice'', ''10''], [''2'', ''Bob'', ''1'']]
     [\<lparr>TotalSize = 10, LineNums = {|1|}\<rparr>, \<lparr>TotalSize = 1, LineNums = {|2|}\<rparr>] =
     Inr ([[[''id'', ''name'', ''size''], [''id'', ''name'', ''size'']],
           [[''id'', ''name'', ''size''], [''1'', ''Alice'', ''10'']]],
          [WriteWarning 3])"
    by code_simp
  have sp: "spec_outputs
     [[''id'', ''name'', ''size''], [''1'', ''Alice'', ''10''], [''2'', ''Bob'', ''1'']]
     [\<lparr>TotalSize = 10, LineNums = {|1|}\<rparr>, \<lparr>TotalSize = 1, LineNums = {|2|}\<rparr>] =
     [[[''id'', ''name'', ''size''], [''1'', ''Alice'', ''10'']],
      [[''id'', ''name'', ''size''], [''2'', ''Bob'', ''1'']]]"
    by code_simp
  show ?thesis by (simp add: splitCmd_def sc bp wf sp del: scan.simps)
qed

text \<open>
  Claim C7 fails on the code. With one bucket the single output holds the header
  twice, then the first data record; the second data record is skipped.
\<close>

theorem header_written_twice:
  "splitCmd insertionSort sorted_list_of_fset
     [[''id'', ''name'', ''size''], [''1'', ''Alice'', ''10''], [''2'', ''Bob'', ''1'']] 1 =
     Inr ([[[''id'', ''name'', ''size''], [''id'', ''name'', ''size''], [''1'', ''Alice'', ''10'']]],
          [WriteWarning 3])"
proof -
  have sc: "scan [[''id'', ''name'', ''size''], [''1'', ''Alice'', ''10''], [''2'', ''Bob'', ''1'']] =
     Inr ([\<lparr>LineNumber = 1, Size = 10\<rparr>, \<lparr>LineNumber = 2, Size = 1\<rparr>], [])"
    by (simp add: ParseInt_def ParseUint_def)
  have bp: "binpack insertionSort [\<lparr>LineNumber = 1, Size = 10\<rparr>, \<lparr>LineNumber = 2, Size = 1\<rparr>] 1 =
     Inr [\<lparr>TotalSize = 11, LineNums = {|2, 1|}\<rparr>]"
    by code_simp
  have wf: "write_files sorted_list_of_fset
     [[''id'', ''name'', ''size''], [''1'', ''Alice'', ''10''], [''2'', ''Bob'', ''1'']]
     [\<lparr>TotalSize = 11, LineNums = {|2, 1|}\<rparr>] =
     Inr ([[[''id'', ''name'', ''size''], [''id'', ''name'', ''size''], [''1'', ''Alice'', ''10'']]],
          [WriteWarning 3])"
    by code_simp
  show ?thesis by (simp add: splitCmd_def sc bp wf del: scan.simps)
qed


section \<open>binpack: bucket counts below 1\<close>








section \<open>scan: records whose weight does not parse\<close>

lemma ParseInt_syntax_zero: "snd (ParseInt s) = Some ErrSyntax \<Longrightarrow> fst (ParseInt s) = 0"
  by (auto simp: ParseInt_def Let_def split: if_splits)

lemma ParseInt_range_bound:
  "snd (ParseInt s) = Some ErrRange \<Longrightarrow>
   fst (ParseInt s) = 2 ^ 63 - 1 \<or> fst (ParseInt s) = - (2 ^ 63)"
  by (auto simp: ParseInt_def Let_def split: if_splits)

lemma scan_loop_metas:
  assumes "\<forall>r\<in>set rs. 2 < length r"
  shows "\<exists>ms log'. scan_loop rs line metas log = Inr (metas @ ms, log') \<and> length ms = length rs \<and>
     (\<forall>k<length rs. ms ! k =
        \<lparr>LineNumber = line + int k, Size = word_of_int (fst (ParseInt (rs ! k ! 2)))\<rparr>)"
  using assms
proof (induction rs arbitrary: line metas log)
  case Nil
  then show ?case by simp
next
  case (Cons r rs)
  let ?m = "\<lparr>LineNumber = line, Size = word_of_int (fst (ParseInt (r ! 2)))\<rparr>"
  let ?log = "if (line + 1) mod 1000000 = 0 then log @ [ScanProgress (line + 1)] else log"
  have step: "scan_loop (r # rs) line metas log = scan_loop rs (line + 1) (metas @ [?m]) ?log"
    using Cons.prems by (simp add: Let_def)
  have "\<forall>r\<in>set rs. 2 < length r" using Cons.prems by simp
  from Cons.IH [OF this, of "line + 1" "metas @ [?m]" ?log] obtain ms log' where
    run: "scan_loop rs (line + 1) (metas @ [?m]) ?log = Inr ((metas @ [?m]) @ ms, log')"
    and len: "length ms = length rs"
    and nth: "\<forall>k<length rs. ms ! k =
        \<lparr>LineNumber = line + 1 + int k, Size = word_of_int (fst (ParseInt (rs ! k ! 2)))\<rparr>"
    by blast
  have "\<forall>k<length (r # rs). (?m # ms) ! k =
        \<lparr>LineNumber = line + int k, Size = word_of_int (fst (ParseInt ((r # rs) ! k ! 2)))\<rparr>"
  proof (intro allI impI)
    fix k assume k: "k < length (r # rs)"
    show "(?m # ms) ! k =
        \<lparr>LineNumber = line + int k, Size = word_of_int (fst (ParseInt ((r # rs) ! k ! 2)))\<rparr>"
    proof (cases k)
      case 0
      then show ?thesis by simp
    next
      case (Suc j)
      with k nth show ?thesis by simp
    qed
  qed
  with step run len show ?case by (intro exI [of _ "?m # ms"] exI [of _ log']) simp
qed

lemma scan_metas:
  assumes "\<forall>r\<in>set rs. 2 < length r"
  shows "\<exists>metas log. scan (header # rs) = Inr (metas, log) \<and> length metas = length rs \<and>
     (\<forall>k<length rs. metas ! k =
        \<lparr>LineNumber = int k + 1, Size = word_of_int (fst (ParseInt (rs ! k ! 2)))\<rparr>)"
  using scan_loop_metas [OF assms, of 1 "[]" "[]"] by (simp add: add.commute)

lemma nth_eq_map_upt:
  assumes "\<forall>k<length xs. f (xs ! k) = g k"
  shows "map f xs = map g [0..<length xs]"
  using assms by (intro nth_equalityI) auto

text \<open>
  An empty field, and a field whose first byte after an optional sign is missing or is
  no digit, are syntax errors.
\<close>

lemma ParseInt_syntax_first_byte:
  assumes "s = [] \<or> (let s1 = (if hd s = CHR ''+'' \<or> hd s = CHR ''-'' then tl s else s)
                        in s1 = [] \<or> \<not> (48 \<le> (of_char (hd s1) :: nat) \<and> (of_char (hd s1) :: nat) \<le> 57))"
  shows "ParseInt s = (0, Some ErrSyntax)"
proof (cases "s = []")
  case True
  then show ?thesis by (simp add: ParseInt_def)
next
  case False
  let ?s1 = "if hd s = CHR ''+'' \<or> hd s = CHR ''-'' then tl s else s"
  from assms False have a: "?s1 = [] \<or> \<not> (48 \<le> (of_char (hd ?s1) :: nat) \<and> (of_char (hd ?s1) :: nat) \<le> 57)"
    by (simp add: Let_def)
  have "snd (ParseUint ?s1) = Some ErrSyntax"
  proof (cases ?s1)
    case Nil
    then show ?thesis by (simp add: ParseUint_def)
  next
    case (Cons c cs)
    with a have "\<not> (48 \<le> (of_char c :: nat) \<and> (of_char c :: nat) \<le> 57)" by simp
    with Cons show ?thesis by (simp add: ParseUint_def)
  qed
  with False show ?thesis by (simp add: ParseInt_def Let_def)
qed

text \<open>
  Claim C4, amended. When every data record has at least three fields, \<open>scan\<close>
  returns one meta per data record, in input order; the meta of the data record at
  position \<open>k\<close> (from 0) has ordinal \<open>k + 1\<close> and the weight \<open>ParseInt\<close> returns for
  its third field, whatever the other records hold. When \<open>ParseInt\<close> reports a syntax
  error for the field, that weight is 0; when it reports a range error, that weight
  is a bound of \<open>int64\<close>, \<open>2 ^ 63 - 1\<close> or \<open>- (2 ^ 63)\<close>. The record stays in the
  sequence: for every bucket count of at least 1 its ordinal is in exactly one bucket.
\<close>

theorem scan_keeps_unparsable_record:
  assumes "\<forall>r\<in>set rs. 2 < length r"
  shows "\<exists>metas log. scan (header # rs) = Inr (metas, log) \<and> length metas = length rs \<and>
     (\<forall>k<length rs. metas ! k =
        \<lparr>LineNumber = int k + 1, Size = word_of_int (fst (ParseInt (rs ! k ! 2)))\<rparr>) \<and>
     (\<forall>k<length rs. snd (ParseInt (rs ! k ! 2)) = Some ErrSyntax \<longrightarrow>
        metas ! k = \<lparr>LineNumber = int k + 1, Size = 0\<rparr>) \<and>
     (\<forall>k<length rs. snd (ParseInt (rs ! k ! 2)) = Some ErrRange \<longrightarrow>
        metas ! k = \<lparr>LineNumber = int k + 1, Size = word_of_int (2 ^ 63 - 1)\<rparr> \<or>
        metas ! k = \<lparr>LineNumber = int k + 1, Size = word_of_int (- (2 ^ 63))\<rparr>) \<and>
     (sort_Slice_ok srt \<and> 1 \<le> bucketsN \<longrightarrow>
        (\<exists>bs. binpack srt metas bucketsN = Inr bs \<and>
           (\<forall>k<length rs. \<exists>!i. i < length bs \<and> (int k + 1) |\<in>| LineNums (bs ! i))))"
proof -
  from scan_metas [OF assms, of header] obtain metas log where
    sc: "scan (header # rs) = Inr (metas, log)" and len: "length metas = length rs"
    and nth: "\<forall>k<length rs. metas ! k =
        \<lparr>LineNumber = int k + 1, Size = word_of_int (fst (ParseInt (rs ! k ! 2)))\<rparr>"
    by blast
  have syn: "\<forall>k<length rs. snd (ParseInt (rs ! k ! 2)) = Some ErrSyntax \<longrightarrow>
        metas ! k = \<lparr>LineNumber = int k + 1, Size = 0\<rparr>"
    using nth by (simp add: ParseInt_syntax_zero)
  have rng: "\<forall>k<length rs. snd (ParseInt (rs ! k ! 2)) = Some ErrRange \<longrightarrow>
        metas ! k = \<lparr>LineNumber = int k + 1, Size = word_of_int (2 ^ 63 - 1)\<rparr> \<or>
        metas ! k = \<lparr>LineNumber = int k + 1, Size = word_of_int (- (2 ^ 63))\<rparr>"
  proof (intro allI impI)
    fix k assume k: "k < length rs" and e: "snd (ParseInt (rs ! k ! 2)) = Some ErrRange"
    from ParseInt_range_bound [OF e]
    have "fst (ParseInt (rs ! k ! 2)) = 2 ^ 63 - 1 \<or> fst (ParseInt (rs ! k ! 2)) = - (2 ^ 63)" .
    moreover from nth k have "metas ! k =
        \<lparr>LineNumber = int k + 1, Size = word_of_int (fst (ParseInt (rs ! k ! 2)))\<rparr>" by blast
    ultimately show "metas ! k = \<lparr>LineNumber = int k + 1, Size = word_of_int (2 ^ 63 - 1)\<rparr> \<or>
        metas ! k = \<lparr>LineNumber = int k + 1, Size = word_of_int (- (2 ^ 63))\<rparr>"
      by (elim disjE) (simp_all only: simp_thms)
  qed
  have bp: "\<exists>bs. binpack srt metas bucketsN = Inr bs \<and>
           (\<forall>k<length rs. \<exists>!i. i < length bs \<and> (int k + 1) |\<in>| LineNums (bs ! i))"
    if ok: "sort_Slice_ok srt" and B: "1 \<le> bucketsN"
  proof -
    have "\<forall>k<length metas. LineNumber (metas ! k) = int k + 1" using nth len by simp
    then have lines: "map LineNumber metas = map (\<lambda>k. int k + 1) [0..<length metas]"
      by (rule nth_eq_map_upt)
    have d: "distinct (map LineNumber metas)"
      unfolding lines by (simp add: distinct_map inj_on_def)
    from binpack_assigned_once [OF ok B d] obtain bs where
      bs: "binpack srt metas bucketsN = Inr bs" and once: "assigned_once bs (LineNumber ` set metas)"
      by blast
    have "\<exists>!i. i < length bs \<and> (int k + 1) |\<in>| LineNums (bs ! i)" if k: "k < length rs" for k
    proof -
      have "metas ! k \<in> set metas" using k len by simp
      then have "LineNumber (metas ! k) \<in> LineNumber ` set metas" by (rule imageI)
      then have "int k + 1 \<in> LineNumber ` set metas" using nth k by simp
      with once show ?thesis unfolding assigned_once_def by blast
    qed
    with bs show ?thesis by blast
  qed
  from sc len nth syn rng bp show ?thesis by blast
qed

theorem scan_keeps_unparsable_record_witness:
  "\<exists>metas log.
     scan [[''id'', ''name'', ''size''], [''1'', ''Alice'', ''abc''], [''2'', ''Bob'', ''7''],
           [''3'', ''Carol'', ''99999999999999999999x'']] =
       Inr (metas, log) \<and>
     length metas = 3 \<and>
     snd (ParseInt ''abc'') = Some ErrSyntax \<and>
     metas ! 0 = \<lparr>LineNumber = 1, Size = 0\<rparr> \<and>
     metas ! 1 = \<lparr>LineNumber = 2, Size = 7\<rparr> \<and>
     snd (ParseInt ''99999999999999999999x'') = Some ErrRange \<and>
     metas ! 2 = \<lparr>LineNumber = 3, Size = word_of_int (2 ^ 63 - 1)\<rparr> \<and>
     (\<exists>bs. binpack insertionSort metas 2 = Inr bs \<and>
        (\<exists>!i. i < length bs \<and> 1 |\<in>| LineNums (bs ! i)) \<and>
        (\<exists>!i. i < length bs \<and> 3 |\<in>| LineNums (bs ! i)))"
proof -
  let ?rs = "[[''1'', ''Alice'', ''abc''], [''2'', ''Bob'', ''7''],
              [''3'', ''Carol'', ''99999999999999999999x'']]"
  have h: "\<forall>r\<in>set ?rs. 2 < length r" by simp
  have e: "snd (ParseInt ''abc'') = Some ErrSyntax"
    by (simp add: ParseInt_def ParseUint_def)
  have p: "word_of_int (fst (ParseInt ''7'')) = (7 :: 64 word)"
    by (simp add: ParseInt_def ParseUint_def)
  have q: "ParseInt ''99999999999999999999x'' = (2 ^ 63 - 1, Some ErrRange)"
    by (simp add: ParseInt_def ParseUint_def)
  have B: "sort_Slice_ok insertionSort \<and> (1::int) \<le> 2"
    using insertionSort_ok by simp
  from scan_keeps_unparsable_record [OF h, of "[''id'', ''name'', ''size'']" insertionSort 2]
  obtain metas log where
    sc: "scan ([''id'', ''name'', ''size''] # ?rs) = Inr (metas, log)" and len: "length metas = length ?rs"
    and nth: "\<forall>k<length ?rs. metas ! k =
        \<lparr>LineNumber = int k + 1, Size = word_of_int (fst (ParseInt (?rs ! k ! 2)))\<rparr>"
    and syn: "\<forall>k<length ?rs. snd (ParseInt (?rs ! k ! 2)) = Some ErrSyntax \<longrightarrow>
        metas ! k = \<lparr>LineNumber = int k + 1, Size = 0\<rparr>"
    and bp: "sort_Slice_ok insertionSort \<and> (1::int) \<le> 2 \<longrightarrow>
        (\<exists>bs. binpack insertionSort metas 2 = Inr bs \<and>
           (\<forall>k<length ?rs. \<exists>!i. i < length bs \<and> (int k + 1) |\<in>| LineNums (bs ! i)))"
    by blast
  have k0: "(0::nat) < length ?rs" and k1: "(1::nat) < length ?rs" and k2: "(2::nat) < length ?rs"
    by simp_all
  have "snd (ParseInt (?rs ! 0 ! 2)) = Some ErrSyntax" using e by simp
  with syn k0 have "metas ! 0 = \<lparr>LineNumber = int 0 + 1, Size = 0\<rparr>" by blast
  then have m0: "metas ! 0 = \<lparr>LineNumber = 1, Size = 0\<rparr>" by simp
  from nth k1 have "metas ! 1 =
      \<lparr>LineNumber = int 1 + 1, Size = word_of_int (fst (ParseInt (?rs ! 1 ! 2)))\<rparr>" by blast
  then have "metas ! 1 = \<lparr>LineNumber = 2, Size = word_of_int (fst (ParseInt ''7''))\<rparr>" by simp
  then have m1: "metas ! 1 = \<lparr>LineNumber = 2, Size = 7\<rparr>" by (simp only: p)
  from nth k2 have "metas ! 2 =
      \<lparr>LineNumber = int 2 + 1, Size = word_of_int (fst (ParseInt (?rs ! 2 ! 2)))\<rparr>" by blast
  then have "metas ! 2 =
      \<lparr>LineNumber = 3, Size = word_of_int (fst (ParseInt ''99999999999999999999x''))\<rparr>" by simp
  then have m2: "metas ! 2 = \<lparr>LineNumber = 3, Size = word_of_int (2 ^ 63 - 1)\<rparr>"
    by (simp only: q fst_conv)
  have r: "snd (ParseInt ''99999999999999999999x'') = Some ErrRange" by (simp only: q snd_conv)
  from bp B obtain bs where bs: "binpack insertionSort metas 2 = Inr bs"
    and all: "\<forall>k<length ?rs. \<exists>!i. i < length bs \<and> (int k + 1) |\<in>| LineNums (bs ! i)"
    by blast
  from all k0 have "\<exists>!i. i < length bs \<and> (int 0 + 1) |\<in>| LineNums (bs ! i)" by blast
  then have one: "\<exists>!i. i < length bs \<and> 1 |\<in>| LineNums (bs ! i)" by simp
  from all k2 have "\<exists>!i. i < length bs \<and> (int 2 + 1) |\<in>| LineNums (bs ! i)" by blast
  then have three: "\<exists>!i. i < length bs \<and> 3 |\<in>| LineNums (bs ! i)" by simp
  have len3: "length metas = 3" using len by simp
  from bs one three have "\<exists>bs. binpack insertionSort metas 2 = Inr bs \<and>
        (\<exists>!i. i < length bs \<and> 1 |\<in>| LineNums (bs ! i)) \<and>
        (\<exists>!i. i < length bs \<and> 3 |\<in>| LineNums (bs ! i))" by blast
  with sc len3 e m0 m1 r m2 show ?thesis by blast
qed

text \<open>
  Claim C4 as stated fails: the record with weight field \<open>abc\<close> is given ordinal 1 and
  weight 0, nothing is printed for it, and \<open>binpack\<close> puts ordinal 1 in bucket 1. A
  weight field \<open>-5\<close> is no non-negative integer either, and is recorded as \<open>-5\<close>.
\<close>

theorem scan_unparsable_weight_in_bucket:
  "ParseInt ''abc'' = (0, Some ErrSyntax) \<and>
   scan [[''id'', ''name'', ''size''], [''1'', ''Alice'', ''abc''], [''2'', ''Bob'', ''7'']] =
     Inr ([\<lparr>LineNumber = 1, Size = 0\<rparr>, \<lparr>LineNumber = 2, Size = 7\<rparr>], []) \<and>
   binpack insertionSort [\<lparr>LineNumber = 1, Size = 0\<rparr>, \<lparr>LineNumber = 2, Size = 7\<rparr>] 2 =
     Inr [\<lparr>TotalSize = 7, LineNums = {|2|}\<rparr>, \<lparr>TotalSize = 0, LineNums = {|1|}\<rparr>] \<and>
   ParseInt ''-5'' = (- 5, None) \<and>
   scan [[''id'', ''name'', ''size''], [''3'', ''Carol'', ''-5'']] =
     Inr ([\<lparr>LineNumber = 1, Size = - 5\<rparr>], [])"
proof (intro conjI)
  show "ParseInt ''abc'' = (0, Some ErrSyntax)"
    by (simp add: ParseInt_def ParseUint_def)
  show "scan [[''id'', ''name'', ''size''], [''1'', ''Alice'', ''abc''], [''2'', ''Bob'', ''7'']] =
     Inr ([\<lparr>LineNumber = 1, Size = 0\<rparr>, \<lparr>LineNumber = 2, Size = 7\<rparr>], [])"
    by (simp add: ParseInt_def ParseUint_def)
  show "binpack insertionSort [\<lparr>LineNumber = 1, Size = 0\<rparr>, \<lparr>LineNumber = 2, Size = 7\<rparr>] 2 =
     Inr [\<lparr>TotalSize = 7, LineNums = {|2|}\<rparr>, \<lparr>TotalSize = 0, LineNums = {|1|}\<rparr>]"
    by code_simp
  show "ParseInt ''-5'' = (- 5, None)"
    by (simp add: ParseInt_def ParseUint_def)
  show "scan [[''id'', ''name'', ''size''], [''3'', ''Carol'', ''-5'']] =
     Inr ([\<lparr>LineNumber = 1, Size = - 5\<rparr>], [])"
    by (simp add: ParseInt_def ParseUint_def)
qed

section \<open>write: the writer goroutines\<close>

text \<open>
  Every interleaving of sends and receives that runs to the end leaves the same
  records in every file, in the same order: those of \<open>write_loop\<close>. Such an
  interleaving exists whenever the sends still to make name existing channels.
\<close>

lemma sent_to_Cons: "sent_to j ((i, r) # todo) = (if i = j then r # sent_to j todo else sent_to j todo)"
  by (simp add: sent_to_def)

lemma balance_step:
  assumes "writer_step c c'" "balance whole c"
  shows "balance whole c'"
  using assms
proof (induction rule: writer_step.induct)
  case (send j chans r todo files)
  then show ?case
    by (auto simp: balance_def sent_to_Cons nth_list_update)
next
  case (recv j chans r q todo files)
  then show ?case
    by (auto simp: balance_def nth_list_update)
qed

lemma balance_steps:
  assumes "writer_step\<^sup>*\<^sup>* c c'" "balance whole c"
  shows "balance whole c'"
  using assms by (induction rule: rtranclp_induct) (auto intro: balance_step)

lemma balance_finished:
  assumes "balance whole (todo, chans, files)" "finished (todo, chans, files)"
  shows "files = whole"
proof (rule nth_equalityI)
  show "length files = length whole" using assms(1) by (simp add: balance_def)
next
  fix j assume j: "j < length files"
  then have jt: "j < length whole" using assms(1) by (simp add: balance_def)
  then have "chans ! j = []"
    using assms by (simp add: finished_def balance_def list_all_length)
  moreover have "sent_to j todo = []" using assms(2) by (simp add: finished_def sent_to_def)
  moreover have "files ! j @ chans ! j @ sent_to j todo = whole ! j"
    using assms(1) jt by (simp add: balance_def)
  ultimately show "files ! j = whole ! j" by simp
qed

lemma schedule_independent:
  assumes "writer_step\<^sup>*\<^sup>* (todo, replicate (length files0) [], files0) (todo', chans', files')"
    and "finished (todo', chans', files')"
  shows "files' = map (\<lambda>j. files0 ! j @ sent_to j todo) [0..<length files0]"
proof -
  let ?whole = "map (\<lambda>j. files0 ! j @ sent_to j todo) [0..<length files0]"
  have "balance ?whole (todo, replicate (length files0) [], files0)"
    by (simp add: balance_def)
  from balance_steps [OF assms(1) this] have "balance ?whole (todo', chans', files')" .
  from balance_finished [OF this assms(2)] show ?thesis .
qed

lemma write_loop_sends:
  "write_loop idx rs lineNum outs log = Inr (outs', log') \<Longrightarrow> 0 < lineNum \<Longrightarrow>
   outs' = map (\<lambda>j. outs ! j @ sent_to j (sends_of idx lineNum rs)) [0..<length outs]"
proof (induction rs arbitrary: lineNum outs log)
  case Nil
  then show ?case by (simp add: sent_to_def map_nth)
next
  case (Cons r rs)
  have pos: "0 < lineNum + 1" using Cons.prems(2) by simp
  show ?case
  proof (cases "idx lineNum")
    case None
    with Cons.prems have "write_loop idx rs (lineNum + 1) outs (log @ [WriteWarning lineNum]) = Inr (outs', log')"
      by (simp add: Let_def)
    from Cons.IH [OF this pos] show ?thesis using None by simp
  next
    case (Some b)
    let ?outs1 = "outs[nat b := outs ! nat b @ [r]]"
    let ?log1 = "if lineNum mod 1000000 = 0 then log @ [WriteProgress lineNum] else log"
    from Some Cons.prems have inr: "0 \<le> b \<and> b < int (length outs)"
      by (auto simp: Let_def split: if_splits)
    with Some Cons.prems have "write_loop idx rs (lineNum + 1) ?outs1 ?log1 = Inr (outs', log')"
      by (simp add: Let_def)
    from Cons.IH [OF this pos]
    have "outs' = map (\<lambda>j. ?outs1 ! j @ sent_to j (sends_of idx (lineNum + 1) rs)) [0..<length outs]"
      by simp
    also have "\<dots> = map (\<lambda>j. outs ! j @ sent_to j (sends_of idx lineNum (r # rs))) [0..<length outs]"
      using Some inr by (auto simp: sent_to_Cons nth_list_update)
    finally show ?thesis .
  qed
qed


lemma write_files_any_schedule:
  assumes "write_files rng (header # rs) buckets = Inr (outs, log)"
    and "writer_step\<^sup>*\<^sup>*
           (sends_of (lineToBucket rng buckets) 1 (header # rs),
            replicate (length buckets) [], replicate (length buckets) [header])
           (todo', chans', files')"
    and "finished (todo', chans', files')"
  shows "files' = outs"
proof -
  let ?idx = "lineToBucket rng buckets"
  let ?files0 = "replicate (length buckets) [header]"
  have "map (\<lambda>out. out @ [header]) (replicate (length buckets) []) = ?files0" by simp
  with assms(1) have "write_loop ?idx (header # rs) 1 ?files0 [] = Inr (outs, log)"
    by (simp only: write_files_def write_loop_header_again)
  from write_loop_sends [OF this]
  have "outs = map (\<lambda>j. ?files0 ! j @ sent_to j (sends_of ?idx 1 (header # rs))) [0..<length ?files0]"
    by simp
  moreover from schedule_independent [of "sends_of ?idx 1 (header # rs)" ?files0 todo' chans' files']
  have "files' = map (\<lambda>j. ?files0 ! j @ sent_to j (sends_of ?idx 1 (header # rs))) [0..<length ?files0]"
    using assms(2,3) by simp
  ultimately show ?thesis by simp
qed

lemma drain_channels:
  "\<exists>files'. writer_step\<^sup>*\<^sup>* (todo, chans, files) (todo, map (\<lambda>q. []) chans, files')"
proof (induction "sum_list (map length chans)" arbitrary: chans files rule: less_induct)
  case less
  show ?case
  proof (cases "list_all (\<lambda>q. q = []) chans")
    case True
    then have "map (\<lambda>q. []) chans = chans"
      by (intro nth_equalityI) (auto simp: list_all_length)
    then have "writer_step\<^sup>*\<^sup>* (todo, chans, files) (todo, map (\<lambda>q. []) chans, files)"
      by simp
    then show ?thesis ..
  next
    case False
    then obtain j where j: "j < length chans" and ne: "chans ! j \<noteq> []"
      by (auto simp: list_all_length)
    then obtain r q where rq: "chans ! j = r # q" by (cases "chans ! j") auto
    let ?chans1 = "chans[j := q]"
    let ?files1 = "files[j := files ! j @ [r]]"
    have st: "writer_step (todo, chans, files) (todo, ?chans1, ?files1)"
      by (rule writer_step.recv [OF j rq])
    have "map length ?chans1 = (map length chans)[j := length q]"
      by (simp add: map_update)
    then have "sum_list (map length ?chans1) =
        sum_list (map length chans) + length q - map length chans ! j"
      using j by (simp add: sum_list_update)
    moreover have "map length chans ! j \<le> sum_list (map length chans)"
      using j by (intro elem_le_sum_list) simp
    ultimately have "sum_list (map length ?chans1) < sum_list (map length chans)"
      using rq j by simp
    from less [OF this, of ?files1] obtain files' where
      rest: "writer_step\<^sup>*\<^sup>* (todo, ?chans1, ?files1) (todo, map (\<lambda>q. []) ?chans1, files')"
      by blast
    have same: "map (\<lambda>q. []) ?chans1 = map (\<lambda>q. []) chans"
      by (intro nth_equalityI) simp_all
    have "writer_step\<^sup>*\<^sup>* (todo, chans, files) (todo, map (\<lambda>q. []) ?chans1, files')"
      by (rule converse_rtranclp_into_rtranclp [OF st rest])
    then have "writer_step\<^sup>*\<^sup>* (todo, chans, files) (todo, map (\<lambda>q. []) chans, files')"
      by (simp only: same)
    then show ?thesis ..
  qed
qed

lemma schedule_exists:
  assumes "\<forall>(j, r)\<in>set todo. j < length chans"
  shows "\<exists>chans' files'. writer_step\<^sup>*\<^sup>* (todo, chans, files) ([], chans', files') \<and>
           finished ([], chans', files')"
  using assms
proof (induction todo arbitrary: chans files)
  case Nil
  from drain_channels [of "[]" chans files] obtain files' where
    "writer_step\<^sup>*\<^sup>* ([], chans, files) ([], map (\<lambda>q. []) chans, files')" by blast
  moreover have "finished ([], map (\<lambda>q. []) chans, files')"
    by (simp add: finished_def list_all_length)
  ultimately show ?case by blast
next
  case (Cons s todo)
  obtain j r where s: "s = (j, r)" by (cases s)
  with Cons.prems have j: "j < length chans" by simp
  let ?empty = "map (\<lambda>q. []) chans :: csv_record list list"
  from drain_channels [of "s # todo" chans files] obtain files1 where
    d: "writer_step\<^sup>*\<^sup>* (s # todo, chans, files) (s # todo, ?empty, files1)" by blast
  have "writer_step ((j, r) # todo, ?empty, files1) (todo, ?empty[j := ?empty ! j @ [r]], files1)"
    by (rule writer_step.send) (use j in simp_all)
  then have st: "writer_step (s # todo, ?empty, files1) (todo, ?empty[j := ?empty ! j @ [r]], files1)"
    using s by simp
  have "\<forall>(i, x)\<in>set todo. i < length (?empty[j := ?empty ! j @ [r]])"
    using Cons.prems by auto
  from Cons.IH [OF this, of files1] obtain chans' files' where
    rest: "writer_step\<^sup>*\<^sup>* (todo, ?empty[j := ?empty ! j @ [r]], files1) ([], chans', files')"
    and fin: "finished ([], chans', files')"
    by blast
  have "writer_step\<^sup>*\<^sup>* (s # todo, chans, files) (todo, ?empty[j := ?empty ! j @ [r]], files1)"
    by (rule rtranclp.rtrancl_into_rtrancl [OF d st])
  then have "writer_step\<^sup>*\<^sup>* (s # todo, chans, files) ([], chans', files')"
    using rest by (rule rtranclp_trans)
  with fin show ?case by blast
qed

section \<open>Determinism of the command\<close>

lemma index_keys_range:
  "set ks = set ks' \<Longrightarrow> index_keys ks i m = index_keys ks' i m"
  by (rule ext) (simp add: index_keys_apply)

lemma index_buckets_range:
  assumes "range_ok rng1" "range_ok rng2"
  shows "index_buckets rng1 bs i m = index_buckets rng2 bs i m"
proof (induction bs arbitrary: i m)
  case Nil
  show ?case by simp
next
  case (Cons b bs)
  have "set (rng1 (LineNums b)) = set (rng2 (LineNums b))"
    using assms by (simp add: range_ok_def)
  then have "index_keys (rng1 (LineNums b)) i m = index_keys (rng2 (LineNums b)) i m"
    by (rule index_keys_range)
  then show ?case using Cons.IH by simp
qed

lemma write_files_schedule:
  assumes "write_files rng input buckets = Inr (outs, log)"
    and "writer_step\<^sup>*\<^sup>* (writers_start rng input buckets) c"
    and "finished c"
  shows "snd (snd c) = outs"
proof -
  obtain todo' chans' files' where c: "c = (todo', chans', files')" by (cases c)
  show ?thesis
  proof (cases input)
    case Nil
    let ?files0 = "replicate (length buckets) ([] :: csv_record list)"
    from assms(1) Nil have o: "outs = ?files0" by (simp add: write_files_def)
    from assms(2) Nil c
    have "writer_step\<^sup>*\<^sup>* ([], replicate (length ?files0) [], ?files0) (todo', chans', files')"
      by (simp add: writers_start_def)
    from schedule_independent [OF this] assms(3) c
    have "files' = map (\<lambda>j. ?files0 ! j @ sent_to j []) [0..<length ?files0]" by simp
    also have "\<dots> = ?files0"
      by (intro nth_equalityI) (simp_all add: sent_to_def)
    finally show ?thesis using o c by simp
  next
    case (Cons header rs)
    from assms Cons c show ?thesis
      using write_files_any_schedule [of rng header rs buckets outs log todo' chans' files']
      by (simp add: writers_start_def)
  qed
qed

lemma sends_of_in_range:
  assumes "\<And>l v. idx l = Some v \<Longrightarrow> 0 \<le> v \<and> v < int n"
  shows "\<forall>(j, r)\<in>set (sends_of idx lineNum rs). j < n"
proof (induction rs arbitrary: lineNum)
  case Nil
  show ?case by simp
next
  case (Cons r rs)
  show ?case
  proof (cases "idx lineNum")
    case None
    then show ?thesis using Cons.IH by simp
  next
    case (Some v)
    with assms have "nat v < n" by fastforce
    then show ?thesis using Some Cons.IH by simp
  qed
qed

lemma writers_can_finish:
  "\<exists>c. writer_step\<^sup>*\<^sup>* (writers_start rng input buckets) c \<and> finished c"
proof (cases input)
  case Nil
  have "finished (writers_start rng input buckets)"
    using Nil by (simp add: writers_start_def finished_def list_all_length)
  then show ?thesis by blast
next
  case (Cons header rs)
  let ?todo = "sends_of (lineToBucket rng buckets) 1 (header # rs)"
  let ?chans = "replicate (length buckets) ([] :: csv_record list)"
  have "\<forall>(j, r)\<in>set ?todo. j < length buckets"
    by (rule sends_of_in_range) (use lineToBucket_value in blast)
  then have "\<forall>(j, r)\<in>set ?todo. j < length ?chans" by simp
  from schedule_exists [OF this, of "replicate (length buckets) [header]"]
  show ?thesis using Cons by (auto simp: writers_start_def)
qed

text \<open>
  Claim C9. Two runs of the command on the same input with the same bucket count give
  the same files. The sort being that of the binary, the code leaves two things open:
  the order in which \<open>range\<close> visits the keys of \<open>LineNums\<close>, and the interleaving of
  the producer with the writer goroutines. Whatever the visiting orders of the two
  runs, the model returns the same result; and whatever the interleavings, the files
  the writers have written when both runs are finished are the same.
\<close>

theorem splitCmd_deterministic:
  assumes "range_ok rng1" and "range_ok rng2"
  shows "splitCmd srt rng1 input bucketsN = splitCmd srt rng2 input bucketsN \<and>
     (\<forall>c1 c2. writer_step\<^sup>*\<^sup>* (writers_start rng1 input buckets) c1 \<and> finished c1 \<and>
              writer_step\<^sup>*\<^sup>* (writers_start rng2 input buckets) c2 \<and> finished c2 \<longrightarrow>
              snd (snd c1) = snd (snd c2))"
proof -
  have idx: "\<And>bs. lineToBucket rng1 bs = lineToBucket rng2 bs"
    using index_buckets_range [OF assms] by (simp add: lineToBucket_def)
  then have w: "\<And>bs. write_files rng1 input bs = write_files rng2 input bs"
    by (simp add: write_files_def)
  then have seq: "splitCmd srt rng1 input bucketsN = splitCmd srt rng2 input bucketsN"
    by (simp add: splitCmd_def cong: sum.case_cong prod.case_cong)
  have conc: "snd (snd c1) = snd (snd c2)"
    if "writer_step\<^sup>*\<^sup>* (writers_start rng1 input buckets) c1 \<and> finished c1 \<and>
        writer_step\<^sup>*\<^sup>* (writers_start rng2 input buckets) c2 \<and> finished c2" for c1 c2
  proof -
    from write_files_returns [of rng1 input buckets] obtain outs log where
      o: "write_files rng1 input buckets = Inr (outs, log)" by force
    then have o2: "write_files rng2 input buckets = Inr (outs, log)" using w by simp
    from write_files_schedule [OF o] that have "snd (snd c1) = outs" by blast
    moreover from write_files_schedule [OF o2] that have "snd (snd c2) = outs" by blast
    ultimately show ?thesis by simp
  qed
  from seq conc show ?thesis by blast
qed

lemma sorted_list_of_fset_ok: "range_ok sorted_list_of_fset"
  by (simp add: range_ok_def)

lemma rev_sorted_list_of_fset_ok: "range_ok (\<lambda>S. rev (sorted_list_of_fset S))"
  by (simp add: range_ok_def)

theorem splitCmd_deterministic_witness:
  "range_ok sorted_list_of_fset \<and> range_ok (\<lambda>S. rev (sorted_list_of_fset S)) \<and>
   splitCmd insertionSort sorted_list_of_fset
     [[''id'', ''name'', ''size''], [''1'', ''Alice'', ''10''], [''2'', ''Bob'', ''1''],
      [''3'', ''Carol'', ''1'']] 2 =
   splitCmd insertionSort (\<lambda>S. rev (sorted_list_of_fset S))
     [[''id'', ''name'', ''size''], [''1'', ''Alice'', ''10''], [''2'', ''Bob'', ''1''],
      [''3'', ''Carol'', ''1'']] 2 \<and>
   (\<exists>c1 c2.
      writer_step\<^sup>*\<^sup>*
        (writers_start sorted_list_of_fset
           [[''id'', ''name'', ''size''], [''1'', ''Alice'', ''10''], [''2'', ''Bob'', ''1''],
            [''3'', ''Carol'', ''1'']]
           [\<lparr>TotalSize = 10, LineNums = {|1|}\<rparr>, \<lparr>TotalSize = 2, LineNums = {|3, 2|}\<rparr>]) c1 \<and>
      finished c1 \<and>
      writer_step\<^sup>*\<^sup>*
        (writers_start (\<lambda>S. rev (sorted_list_of_fset S))
           [[''id'', ''name'', ''size''], [''1'', ''Alice'', ''10''], [''2'', ''Bob'', ''1''],
            [''3'', ''Carol'', ''1'']]
           [\<lparr>TotalSize = 10, LineNums = {|1|}\<rparr>, \<lparr>TotalSize = 2, LineNums = {|3, 2|}\<rparr>]) c2 \<and>
      finished c2 \<and> snd (snd c1) = snd (snd c2))"
proof -
  let ?input = "[[''id'', ''name'', ''size''], [''1'', ''Alice'', ''10''], [''2'', ''Bob'', ''1''],
      [''3'', ''Carol'', ''1'']]"
  let ?bs = "[\<lparr>TotalSize = 10, LineNums = {|1|}\<rparr>, \<lparr>TotalSize = 2, LineNums = {|3, 2|}\<rparr>]"
  note th = splitCmd_deterministic [OF sorted_list_of_fset_ok rev_sorted_list_of_fset_ok,
      of insertionSort ?input 2 ?bs]
  from writers_can_finish [of sorted_list_of_fset ?input ?bs] obtain c1 where
    c1: "writer_step\<^sup>*\<^sup>* (writers_start sorted_list_of_fset ?input ?bs) c1" "finished c1" by blast
  from writers_can_finish [of "\<lambda>S. rev (sorted_list_of_fset S)" ?input ?bs] obtain c2 where
    c2: "writer_step\<^sup>*\<^sup>* (writers_start (\<lambda>S. rev (sorted_list_of_fset S)) ?input ?bs) c2"
      "finished c2" by blast
  from th c1 c2 have "snd (snd c1) = snd (snd c2)" by blast
  with th c1 c2 sorted_list_of_fset_ok rev_sorted_list_of_fset_ok show ?thesis by blast
qed

end
